theory Spec2Isabelle
  imports Main
begin

section \<open>Values shared by every stage\<close>

text \<open>
  A record is whatever \<^verbatim>\<open>json.loads\<close> returns: \<^verbatim>\<open>None\<close>, a bool, a number, a
  \<^verbatim>\<open>str\<close>, a \<^verbatim>\<open>list\<close> or a \<^verbatim>\<open>dict\<close> with string keys. A \<^verbatim>\<open>dict\<close> is kept as
  its items in insertion order (each key once, as \<^verbatim>\<open>json.loads\<close> builds it). Numbers are
  integers here; the code below never looks inside a number, it only tells \<^verbatim>\<open>None\<close>,
  \<^verbatim>\<open>list\<close> and \<^verbatim>\<open>dict\<close> apart from everything else.
\<close>

datatype json =
    JNull
  | JBool bool
  | JInt int
  | JStr string
  | JArr "json list"
  | JObj "(string \<times> json) list"

text \<open>
  \<^verbatim>\<open>str(x)\<close>: a \<^verbatim>\<open>str\<close> is returned as it is. For every other value the text is what
  the interpreter's built-in rendering gives; that rendering is not code of the repository
  and is taken as the parameter \<open>rep\<close>.
\<close>

definition py_str :: "(json \<Rightarrow> string) \<Rightarrow> json \<Rightarrow> string" where
  "py_str rep v = (case v of JStr s \<Rightarrow> s | _ \<Rightarrow> rep v)"

text \<open>\<^verbatim>\<open>sep.join(xs)\<close>.\<close>

fun py_join :: "string \<Rightarrow> string list \<Rightarrow> string" where
  "py_join sep [] = []"
| "py_join sep [x] = x"
| "py_join sep (x # y # ys) = x @ sep @ py_join sep (y # ys)"

text \<open>
  \<^verbatim>\<open>s.strip()\<close> removes whitespace at both ends. Characters are 8-bit here, and the
  whitespace characters are the ASCII ones of \<^verbatim>\<open>str.isspace\<close>: tab, line feed, vertical
  tab, form feed, carriage return, the separators 0x1C to 0x1F, and the space.
\<close>

definition is_space :: "char \<Rightarrow> bool" where
  "is_space c = (c \<in> set [CHR 0x09, CHR 0x0A, CHR 0x0B, CHR 0x0C, CHR 0x0D,
                           CHR 0x1C, CHR 0x1D, CHR 0x1E, CHR 0x1F, CHR '' ''])"

definition py_strip :: "string \<Rightarrow> string" where
  "py_strip s = rev (dropWhile is_space (rev (dropWhile is_space s)))"


section \<open>TextBuilder: three copies\<close>

text \<open>
  \<^verbatim>\<open>FIELDS\<close>, \<^verbatim>\<open>get_in\<close> and \<^verbatim>\<open>to_text\<close> exist three times in the source, in
  \<^verbatim>\<open>ingest_to_milvus.py\<close> (nested in \<^verbatim>\<open>build_embedding_text\<close>),
  \<^verbatim>\<open>embeddings_preview.py\<close> and \<^verbatim>\<open>embeddings_real.py\<close>. Each copy is embedded on its own,
  under the module's name.
\<close>

subsection \<open>\<^verbatim>\<open>ingest_to_milvus.build_embedding_text\<close>\<close>

definition ingest_FIELDS :: "string list list" where
  "ingest_FIELDS =
     [[''important'', ''title''],
      [''important'', ''category''],
      [''important'', ''sub_category''],
      [''important'', ''tags''],
      [''important'', ''targets'', ''os''],
      [''important'', ''targets'', ''system''],
      [''important'', ''risk'']]"

text \<open>
  \<^verbatim>\<open>get_in\<close> walks the path; it returns \<^verbatim>\<open>None\<close> as soon as the current value is not a
  \<^verbatim>\<open>dict\<close> or lacks the key. A value that is \<^verbatim>\<open>null\<close> in the record is \<^verbatim>\<open>None\<close> as well.
\<close>

fun ingest_get_in :: "json \<Rightarrow> string list \<Rightarrow> json" where
  "ingest_get_in cur [] = cur"
| "ingest_get_in cur (k # ks) =
     (case cur of
        JObj kvs \<Rightarrow> (case map_of kvs k of None \<Rightarrow> JNull | Some v \<Rightarrow> ingest_get_in v ks)
      | _ \<Rightarrow> JNull)"

definition ingest_to_text :: "(json \<Rightarrow> string) \<Rightarrow> json \<Rightarrow> string" where
  "ingest_to_text rep v =
     (case v of
        JNull \<Rightarrow> []
      | JArr xs \<Rightarrow> py_join '' '' (map (py_str rep) (filter (\<lambda>x. x \<noteq> JNull) xs))
      | _ \<Rightarrow> py_str rep v)"

definition ingest_build_embedding_text :: "(json \<Rightarrow> string) \<Rightarrow> json \<Rightarrow> string" where
  "ingest_build_embedding_text rep record =
     py_strip (py_join '' '' (map (\<lambda>p. ingest_to_text rep (ingest_get_in record p)) ingest_FIELDS))"

subsection \<open>\<^verbatim>\<open>embeddings_preview.build_embedding_text\<close>\<close>

definition preview_FIELDS :: "string list list" where
  "preview_FIELDS =
     [[''important'', ''title''],
      [''important'', ''category''],
      [''important'', ''sub_category''],
      [''important'', ''tags''],
      [''important'', ''targets'', ''os''],
      [''important'', ''targets'', ''system''],
      [''important'', ''risk'']]"

fun preview_get_in :: "json \<Rightarrow> string list \<Rightarrow> json" where
  "preview_get_in cur [] = cur"
| "preview_get_in cur (key # keys) =
     (case cur of
        JObj kvs \<Rightarrow> (case map_of kvs key of None \<Rightarrow> JNull | Some v \<Rightarrow> preview_get_in v keys)
      | _ \<Rightarrow> JNull)"

definition preview_to_text :: "(json \<Rightarrow> string) \<Rightarrow> json \<Rightarrow> string" where
  "preview_to_text rep v =
     (case v of
        JNull \<Rightarrow> []
      | JArr xs \<Rightarrow> py_join '' '' (map (py_str rep) (filter (\<lambda>x. x \<noteq> JNull) xs))
      | _ \<Rightarrow> py_str rep v)"

text \<open>The parts are collected first; the empty ones are dropped before the join.\<close>

definition preview_build_embedding_text :: "(json \<Rightarrow> string) \<Rightarrow> json \<Rightarrow> string" where
  "preview_build_embedding_text rep record =
     (let parts = map (\<lambda>path. preview_to_text rep (preview_get_in record path)) preview_FIELDS
      in py_strip (py_join '' '' (filter (\<lambda>p. p \<noteq> []) parts)))"

subsection \<open>\<^verbatim>\<open>embeddings_real.build_embedding_text\<close>\<close>

definition real_FIELDS :: "string list list" where
  "real_FIELDS =
     [[''important'', ''title''],
      [''important'', ''category''],
      [''important'', ''sub_category''],
      [''important'', ''tags''],
      [''important'', ''targets'', ''os''],
      [''important'', ''targets'', ''system''],
      [''important'', ''risk'']]"

fun real_get_in :: "json \<Rightarrow> string list \<Rightarrow> json" where
  "real_get_in cur [] = cur"
| "real_get_in cur (k # ks) =
     (case cur of
        JObj kvs \<Rightarrow> (case map_of kvs k of None \<Rightarrow> JNull | Some v \<Rightarrow> real_get_in v ks)
      | _ \<Rightarrow> JNull)"

definition real_to_text :: "(json \<Rightarrow> string) \<Rightarrow> json \<Rightarrow> string" where
  "real_to_text rep v =
     (case v of
        JNull \<Rightarrow> []
      | JArr xs \<Rightarrow> py_join '' '' (map (py_str rep) (filter (\<lambda>x. x \<noteq> JNull) xs))
      | _ \<Rightarrow> py_str rep v)"

definition real_build_embedding_text :: "(json \<Rightarrow> string) \<Rightarrow> json \<Rightarrow> string" where
  "real_build_embedding_text rep rec =
     (let parts = map (\<lambda>p. real_to_text rep (real_get_in rec p)) real_FIELDS
      in py_strip (py_join '' '' (filter (\<lambda>x. x \<noteq> []) parts)))"

subsection \<open>What the claims about the text speak of\<close>

fun has_double_space :: "string \<Rightarrow> bool" where
  "has_double_space (a # b # cs) = ((a = CHR '' '' \<and> b = CHR '' '') \<or> has_double_space (b # cs))"
| "has_double_space _ = False"

definition edge_space :: "string \<Rightarrow> bool" where
  "edge_space s = (case s of [] \<Rightarrow> False | c # cs \<Rightarrow> c = CHR '' '' \<or> last s = CHR '' '')"

text \<open>A fragment is tidy when it brings no such defect of its own.\<close>

definition tidy :: "string \<Rightarrow> bool" where
  "tidy s = (\<not> has_double_space s \<and> \<not> edge_space s)"


section \<open>Files, paths and text\<close>

text \<open>
  A path is resolved and absolute: the list of its components below the file system's
  root. The file system is the list of its regular files with their text; directories
  are not entries of their own (\<^verbatim>\<open>mkdir(parents=True, exist_ok=True)\<close> changes nothing
  here) and writing, moving and deleting a file succeed.
\<close>

type_synonym path = "string list"

type_synonym filesystem = "(path \<times> string) list"

definition fs_read :: "filesystem \<Rightarrow> path \<Rightarrow> string option" where
  "fs_read fs p = map_of fs p"

definition fs_exists :: "filesystem \<Rightarrow> path \<Rightarrow> bool" where
  "fs_exists fs p = (map_of fs p \<noteq> None)"

definition fs_remove :: "filesystem \<Rightarrow> path \<Rightarrow> filesystem" where
  "fs_remove fs p = filter (\<lambda>e. fst e \<noteq> p) fs"

definition fs_write :: "filesystem \<Rightarrow> path \<Rightarrow> string \<Rightarrow> filesystem" where
  "fs_write fs p s = (p, s) # fs_remove fs p"


text \<open>A rename; the caller has checked that the source exists.\<close>

definition fs_move :: "filesystem \<Rightarrow> path \<Rightarrow> path \<Rightarrow> filesystem" where
  "fs_move fs src dst =
     (case fs_read fs src of None \<Rightarrow> fs | Some s \<Rightarrow> fs_write (fs_remove fs src) dst s)"

text \<open>The names of the files directly inside a folder.\<close>

definition fs_names :: "filesystem \<Rightarrow> path \<Rightarrow> string list" where
  "fs_names fs folder = map (\<lambda>e. last (fst e)) (filter (\<lambda>e. fst e \<noteq> [] \<and> butlast (fst e) = folder) fs)"

definition path_name :: "path \<Rightarrow> string" where
  "path_name p = (if p = [] then [] else last p)"

text \<open>
  \<^verbatim>\<open>PurePath.suffix\<close> and \<^verbatim>\<open>PurePath.stem\<close> of a file name (CPython up to 3.13): the
  name is cut at its last dot, unless that dot is the first or the last character.
\<close>

definition rfind_dot :: "string \<Rightarrow> nat option" where
  "rfind_dot s =
     (if CHR ''.'' \<in> set s
      then Some (length s - 1 - length (takeWhile (\<lambda>c. c \<noteq> CHR ''.'') (rev s)))
      else None)"


definition py_stem :: "string \<Rightarrow> string" where
  "py_stem name =
     (case rfind_dot name of
        None \<Rightarrow> name
      | Some i \<Rightarrow> if 0 < i \<and> i + 1 < length name then take i name else name)"


text \<open>
  Reading a text file: the default universal newlines mode turns \<^verbatim>\<open>\r\n\<close> and a lone
  \<^verbatim>\<open>\r\<close> into \<^verbatim>\<open>\n\<close>; iterating over the file yields its lines, each with its
  terminator but possibly the last.
\<close>

fun universal_newlines :: "string \<Rightarrow> string" where
  "universal_newlines [] = []"
| "universal_newlines [c] = [if c = CHR 0x0D then CHR 0x0A else c]"
| "universal_newlines (c # d # ds) =
     (if c = CHR 0x0D \<and> d = CHR 0x0A then CHR 0x0A # universal_newlines ds
      else if c = CHR 0x0D then CHR 0x0A # universal_newlines (d # ds)
      else c # universal_newlines (d # ds))"

fun lines_from :: "string \<Rightarrow> string \<Rightarrow> string list" where
  "lines_from cur [] = (if cur = [] then [] else [cur])"
| "lines_from cur (c # cs) =
     (if c = CHR 0x0A then (cur @ [c]) # lines_from [] cs else lines_from (cur @ [c]) cs)"

definition py_lines :: "string \<Rightarrow> string list" where
  "py_lines content = lines_from [] (universal_newlines content)"

text \<open>Decimal digits: \<^verbatim>\<open>int(m.group(1))\<close> of a run of digits, and \<^verbatim>\<open>f"{v}"\<close> of a version.\<close>

definition is_digit :: "char \<Rightarrow> bool" where
  "is_digit c = (c \<in> set ''0123456789'')"

definition digit_val :: "char \<Rightarrow> nat" where
  "digit_val c = length (takeWhile (\<lambda>d. d \<noteq> c) ''0123456789'')"

definition digits_to_nat :: "string \<Rightarrow> nat" where
  "digits_to_nat ds = foldl (\<lambda>a c. 10 * a + digit_val c) 0 ds"

definition digit_char :: "nat \<Rightarrow> char" where
  "digit_char n = ''0123456789'' ! n"

function show_nat :: "nat \<Rightarrow> string" where
  "show_nat n = (if n < 10 then [digit_char n] else show_nat (n div 10) @ [digit_char (n mod 10)])"
  by pat_completeness auto
termination
  by (relation "measure id") auto

declare show_nat.simps [simp del]

definition starts_with :: "string \<Rightarrow> string \<Rightarrow> bool" where
  "starts_with pre s = (take (length pre) s = pre)"

definition ends_with :: "string \<Rightarrow> string \<Rightarrow> bool" where
  "ends_with suf s = (length suf \<le> length s \<and> drop (length s - length suf) s = suf)"



section \<open>What lies outside the repository\<close>

text \<open>
  The functions of the standard library that the stages call on data: the rendering of a
  value that is not a string (see \<open>py_str\<close>), \<^verbatim>\<open>json.loads\<close> (\<open>None\<close> when it raises),
  \<^verbatim>\<open>json.dumps(obj, ensure_ascii=False)\<close> and \<^verbatim>\<open>json.dumps(payload, indent=2)\<close>.
  \<^verbatim>\<open>json.load(f)\<close> is \<^verbatim>\<open>json.loads\<close> of the text read from the file.
\<close>

record pylib =
  str_repr :: "json \<Rightarrow> string"
  json_loads :: "string \<Rightarrow> json option"
  json_dumps :: "json \<Rightarrow> string"
  json_dumps_indent :: "json \<Rightarrow> string"

text \<open>The readings of the clock during one run: the date, the time of day, the UTC stamp.\<close>

record clock =
  clk_date :: string
  clk_hms :: string
  clk_utc :: string

text \<open>
  Exceptions. The text carried by a \<^verbatim>\<open>ValueError\<close> is the message of the source without
  the library's detail.
\<close>

datatype py_error =
    ValueError string
  | FileNotFoundError
  | JSONDecodeError
  | TypeError
  | AttributeError
  | ConnectionError
  | ModelError
  | EncodeError
  | InsertError
  | OSError



section \<open>Normalizer: \<^verbatim>\<open>normalize_and_move.py\<close>\<close>

text \<open>The folders below \<^verbatim>\<open>ROOT\<close>, the parent of the directory of the module's file.\<close>

definition INBOX :: "path \<Rightarrow> path" where
  "INBOX root = root @ [''data'', ''inbox'']"















text \<open>
  \<^verbatim>\<open>folder.glob(f"{slug}_v*.jsonl")\<close> on the names in the folder: a slug is made of
  lower-case letters, digits and underscores, so the pattern's only wildcard is the star.
  Then \<^verbatim>\<open>re.search(r"_v(\d+)\.jsonl$", name)\<close>: the digits are the run that stands
  right before the final \<^verbatim>\<open>.jsonl\<close>, and \<^verbatim>\<open>_v\<close> must stand right before them.
\<close>

definition glob_slug :: "string \<Rightarrow> string \<Rightarrow> bool" where
  "glob_slug slug name =
     (starts_with (slug @ ''_v'') name \<and> ends_with ''.jsonl'' name
      \<and> length slug + 2 + 6 \<le> length name)"

definition version_of :: "string \<Rightarrow> nat option" where
  "version_of name =
     (if ends_with ''.jsonl'' name then
        (let body = take (length name - 6) name;
             ds = rev (takeWhile is_digit (rev body));
             pre = take (length body - length ds) body
         in if ds \<noteq> [] \<and> ends_with ''_v'' pre then Some (digits_to_nat ds) else None)
      else None)"

definition next_version :: "string list \<Rightarrow> string \<Rightarrow> nat" where
  "next_version names slug =
     (let existing = filter (glob_slug slug) names in
      if existing = [] then 1
      else
        let versions = concat (map (\<lambda>n. case version_of n of None \<Rightarrow> [] | Some v \<Rightarrow> [v]) existing)
        in if versions \<noteq> [] then Max (set versions) + 1 else 1)"

definition version_name :: "string \<Rightarrow> nat \<Rightarrow> string" where
  "version_name slug v = slug @ ''_v'' @ show_nat v @ ''.jsonl''"

definition next_version_path :: "filesystem \<Rightarrow> path \<Rightarrow> string \<Rightarrow> path" where
  "next_version_path fs folder slug =
     folder @ [version_name slug (next_version (fs_names fs folder) slug)]"







section \<open>Ingestor: \<^verbatim>\<open>ingest_to_milvus.py\<close>\<close>

text \<open>
  The configuration as \<^verbatim>\<open>load_config\<close> returns it, with the keys \<^verbatim>\<open>main\<close> reads; a key
  that is absent is \<open>None\<close> and the code's default applies. The index type, metric and
  parameters are only handed on to \<^verbatim>\<open>create_index\<close> and are left out. The checkpoints
  root is a resolved path.
\<close>

record config =
  cfg_collection_name :: "string option"
  cfg_dim :: "int option"
  cfg_model_name :: "string option"
  cfg_batch_size :: "int option"
  cfg_checkpoints_root :: "path option"

text \<open>
  The behaviour of the services during one run: whether \<^verbatim>\<open>connections.connect\<close>,
  \<^verbatim>\<open>create_index\<close>, the import and construction of the model, the write of the
  checkpoint's temporary file and its rename return or raise; and which calls of
  \<^verbatim>\<open>model.encode\<close> and \<^verbatim>\<open>collection.insert\<close> raise, each call numbered by the calls
  (for \<^verbatim>\<open>insert\<close>: the successful ones) recorded before it.
\<close>

record services =
  connect_ok :: bool
  create_index_ok :: bool
  model_ok :: bool
  encode_fails :: "nat list"
  insert_fails :: "nat list"
  tmp_write_ok :: bool
  replace_ok :: bool

text \<open>
  The embedder is opaque: the vector it returns for a text is kept as the pair of the
  model's name and the text.
\<close>

datatype vector = Embedding string string

record scalars =
  s_id :: json
  s_title :: json
  s_category :: json
  s_sub_category :: json
  s_risk :: json
  s_tags :: string
  s_os :: string
  s_system :: string

record row =
  row_id :: json
  row_embedding :: vector
  row_title :: json
  row_category :: json
  row_sub_category :: json
  row_risk :: json
  row_tags :: string
  row_os :: string
  row_system :: string
  row_raw :: json

text \<open>
  What a run can change: the files, the collections of the vector store, the calls of
  \<^verbatim>\<open>create_index\<close> (collection, and whether the call returned), the calls of
  \<^verbatim>\<open>model.encode\<close> with their texts, and the batches that \<^verbatim>\<open>collection.insert\<close> stored.
\<close>

record world =
  w_fs :: filesystem
  w_collections :: "string list"
  w_index_calls :: "(string \<times> bool) list"
  w_encode_calls :: "string list list"
  w_inserts :: "(string \<times> row list) list"

text \<open>\<^verbatim>\<open>d.get(k, default)\<close>.\<close>

definition dict_get :: "(string \<times> json) list \<Rightarrow> string \<Rightarrow> json \<Rightarrow> json" where
  "dict_get kvs k dflt = (case map_of kvs k of None \<Rightarrow> dflt | Some v \<Rightarrow> v)"

definition list_to_str :: "(json \<Rightarrow> string) \<Rightarrow> json \<Rightarrow> string" where
  "list_to_str rep v =
     (case v of
        JArr xs \<Rightarrow> py_join '' '' (map (py_str rep) (filter (\<lambda>x. x \<noteq> JNull) xs))
      | JNull \<Rightarrow> []
      | _ \<Rightarrow> py_str rep v)"

text \<open>
  \<^verbatim>\<open>extract_scalar_fields\<close>: \<^verbatim>\<open>.get\<close> exists on a \<^verbatim>\<open>dict\<close> only, so a record, an
  \<^verbatim>\<open>important\<close> or a \<^verbatim>\<open>targets\<close> that is anything else raises \<^verbatim>\<open>AttributeError\<close>.
\<close>

definition extract_scalar_fields :: "pylib \<Rightarrow> json \<Rightarrow> py_error + scalars" where
  "extract_scalar_fields lib record =
     (case record of
        JObj kvs \<Rightarrow>
          (case dict_get kvs ''important'' (JObj []) of
             JObj important \<Rightarrow>
               (case dict_get important ''targets'' (JObj []) of
                  JObj targets \<Rightarrow>
                    Inr \<lparr>s_id = dict_get kvs ''id'' (JStr []),
                         s_title = dict_get important ''title'' (JStr []),
                         s_category = dict_get important ''category'' (JStr []),
                         s_sub_category = dict_get important ''sub_category'' (JStr []),
                         s_risk = dict_get important ''risk'' (JStr []),
                         s_tags = list_to_str (str_repr lib) (dict_get important ''tags'' (JArr [])),
                         s_os = list_to_str (str_repr lib) (dict_get targets ''os'' (JArr [])),
                         s_system = list_to_str (str_repr lib) (dict_get targets ''system'' (JArr []))\<rparr>
                | _ \<Rightarrow> Inl AttributeError)
           | _ \<Rightarrow> Inl AttributeError)
      | _ \<Rightarrow> Inl AttributeError)"

definition collection_name :: "config \<Rightarrow> string" where
  "collection_name cfg = (case cfg_collection_name cfg of None \<Rightarrow> ''attacks_v2'' | Some n \<Rightarrow> n)"

text \<open>
  \<^verbatim>\<open>ensure_collection\<close>: the collection is created when the store does not have it; then
  \<^verbatim>\<open>create_index\<close> is called in either case and its exception is swallowed.
\<close>

definition ensure_collection :: "services \<Rightarrow> config \<Rightarrow> world \<Rightarrow> string \<times> world" where
  "ensure_collection sv cfg w =
     (let name = collection_name cfg;
          w1 = (if name \<in> set (w_collections w) then w
                else w\<lparr>w_collections := w_collections w @ [name]\<rparr>)
      in (name, w1\<lparr>w_index_calls := w_index_calls w1 @ [(name, create_index_ok sv)]\<rparr>))"

definition write_checkpoint_atomic ::
  "services \<Rightarrow> pylib \<Rightarrow> path \<Rightarrow> string \<Rightarrow> json \<Rightarrow> filesystem \<Rightarrow> (py_error + path) \<times> filesystem" where
  "write_checkpoint_atomic sv lib checkpoints_root stem payload fs =
     (let done_path = checkpoints_root @ [stem @ ''.done''];
          tmp_path = checkpoints_root @ [stem @ ''.done.tmp'']
      in if \<not> tmp_write_ok sv then (Inl OSError, fs)
         else
           let fs1 = fs_write fs tmp_path (json_dumps_indent lib payload) in
           if \<not> replace_ok sv then (Inl OSError, fs1)
           else (Inr done_path, fs_move fs1 tmp_path done_path))"

text \<open>
  \<^verbatim>\<open>stream_records\<close>: the values of the lines that are not blank and that
  \<^verbatim>\<open>json.loads\<close> accepts, in order; the other lines are passed over.
\<close>

definition records_of_lines :: "pylib \<Rightarrow> string list \<Rightarrow> json list" where
  "records_of_lines lib ls =
     concat (map (\<lambda>line. let l = py_strip line in
                           if l = [] then []
                           else (case json_loads lib l of None \<Rightarrow> [] | Some v \<Rightarrow> [v])) ls)"

definition stream_records :: "pylib \<Rightarrow> path \<Rightarrow> filesystem \<Rightarrow> py_error + json list" where
  "stream_records lib jsonl_path fs =
     (case fs_read fs jsonl_path of
        None \<Rightarrow> Inl FileNotFoundError
      | Some t \<Rightarrow> Inr (records_of_lines lib (py_lines t)))"

definition make_row :: "scalars \<Rightarrow> vector \<Rightarrow> json \<Rightarrow> row" where
  "make_row s e r =
     \<lparr>row_id = s_id s, row_embedding = e, row_title = s_title s, row_category = s_category s,
      row_sub_category = s_sub_category s, row_risk = s_risk s, row_tags = s_tags s,
      row_os = s_os s, row_system = s_system s, row_raw = r\<rparr>"

text \<open>The loop of \<^verbatim>\<open>flush_batch\<close> over \<^verbatim>\<open>zip(records, embeddings)\<close>.\<close>

fun build_rows :: "pylib \<Rightarrow> (json \<times> vector) list \<Rightarrow> py_error + row list" where
  "build_rows lib [] = Inr []"
| "build_rows lib ((r, e) # rest) =
     (case extract_scalar_fields lib r of
        Inl err \<Rightarrow> Inl err
      | Inr s \<Rightarrow>
          (case build_rows lib rest of
             Inl err \<Rightarrow> Inl err
           | Inr rows \<Rightarrow> Inr (make_row s e r # rows)))"

text \<open>
  \<^verbatim>\<open>flush_batch\<close>: nothing happens on empty buffers; else one call of \<^verbatim>\<open>model.encode\<close>,
  the rows, one call of \<^verbatim>\<open>collection.insert\<close>. The caller's buffers are cleared on return.
\<close>

definition flush_batch ::
  "services \<Rightarrow> pylib \<Rightarrow> string \<Rightarrow> string \<Rightarrow> string list \<Rightarrow> json list \<Rightarrow> world
     \<Rightarrow> py_error option \<times> world" where
  "flush_batch sv lib model_name coll texts records w =
     (if texts = [] then (None, w)
      else
        let w1 = w\<lparr>w_encode_calls := w_encode_calls w @ [texts]\<rparr> in
        if length (w_encode_calls w) \<in> set (encode_fails sv) then (Some EncodeError, w1)
        else
          (case build_rows lib (zip records (map (Embedding model_name) texts)) of
             Inl e \<Rightarrow> (Some e, w1)
           | Inr rows \<Rightarrow>
               if length (w_inserts w1) \<in> set (insert_fails sv) then (Some InsertError, w1)
               else (None, w1\<lparr>w_inserts := w_inserts w1 @ [(coll, rows)]\<rparr>)))"

text \<open>The \<^verbatim>\<open>for rec in stream_records(jsonl_path)\<close> loop with its two buffers and counter.\<close>

fun ingest_loop ::
  "services \<Rightarrow> pylib \<Rightarrow> string \<Rightarrow> string \<Rightarrow> int \<Rightarrow> json list \<Rightarrow> string list \<Rightarrow> json list \<Rightarrow> nat
     \<Rightarrow> world \<Rightarrow> (py_error + string list \<times> json list \<times> nat) \<times> world" where
  "ingest_loop sv lib model_name coll batch_size [] texts records total_count w =
     (Inr (texts, records, total_count), w)"
| "ingest_loop sv lib model_name coll batch_size (rec # rest) texts records total_count w =
     (let total_count' = total_count + 1;
          texts' = texts @ [ingest_build_embedding_text (str_repr lib) rec];
          records' = records @ [rec]
      in if int (length texts') \<ge> batch_size then
           (case flush_batch sv lib model_name coll texts' records' w of
              (Some e, w') \<Rightarrow> (Inl e, w')
            | (None, w') \<Rightarrow> ingest_loop sv lib model_name coll batch_size rest [] [] total_count' w')
         else ingest_loop sv lib model_name coll batch_size rest texts' records' total_count' w)"

definition path_str :: "path \<Rightarrow> string" where
  "path_str p = (if p = [] then ''/'' else concat (map (\<lambda>c. ''/'' @ c) p))"

definition checkpoint_payload :: "clock \<Rightarrow> config \<Rightarrow> path \<Rightarrow> string \<Rightarrow> nat \<Rightarrow> json" where
  "checkpoint_payload clk cfg jsonl_path coll total_count =
     JObj [(''source_file'', JStr (path_str jsonl_path)),
           (''collection_name'', JStr coll),
           (''records_ingested'', JInt (int total_count)),
           (''model_name'', JStr (case cfg_model_name cfg of None \<Rightarrow> ''unknown'' | Some m \<Rightarrow> m)),
           (''vector_dim'', JInt (case cfg_dim cfg of None \<Rightarrow> 384 | Some d \<Rightarrow> d)),
           (''ingested_at'', JStr (clk_utc clk))]"

definition checkpoints_root_of :: "path \<Rightarrow> config \<Rightarrow> path" where
  "checkpoints_root_of cwd cfg =
     (case cfg_checkpoints_root cfg of None \<Rightarrow> cwd @ [''data'', ''checkpoints''] | Some r \<Rightarrow> r)"

definition lock_path_of :: "path \<Rightarrow> path \<Rightarrow> path" where
  "lock_path_of checkpoints_root jsonl_path =
     checkpoints_root @ [py_stem (path_name jsonl_path) @ ''.lock'']"

definition done_path_of :: "path \<Rightarrow> path \<Rightarrow> path" where
  "done_path_of checkpoints_root jsonl_path =
     checkpoints_root @ [py_stem (path_name jsonl_path) @ ''.done'']"

text \<open>
  \<^verbatim>\<open>config.get("model_name", "sentence-transformers/all-MiniLM-L6-v2")\<close> and
  \<^verbatim>\<open>int(config.get("batch_size", 512))\<close>.
\<close>

definition model_name_of :: "config \<Rightarrow> string" where
  "model_name_of cfg =
     (case cfg_model_name cfg of None \<Rightarrow> ''sentence-transformers/all-MiniLM-L6-v2'' | Some m \<Rightarrow> m)"

definition batch_size_of :: "config \<Rightarrow> int" where
  "batch_size_of cfg = (case cfg_batch_size cfg of None \<Rightarrow> 512 | Some b \<Rightarrow> b)"

text \<open>
  The body of the \<^verbatim>\<open>try\<close> in \<^verbatim>\<open>main\<close>, from the write of the lock to the checkpoint.
  The result is the exception that left it, if any.
\<close>

definition locked_phase ::
  "services \<Rightarrow> pylib \<Rightarrow> clock \<Rightarrow> config \<Rightarrow> string \<Rightarrow> path \<Rightarrow> path \<Rightarrow> world
     \<Rightarrow> py_error option \<times> world" where
  "locked_phase sv lib clk cfg coll checkpoints_root jsonl_path w =
     (let w1 = w\<lparr>w_fs := fs_write (w_fs w) (lock_path_of checkpoints_root jsonl_path) ''lock''\<rparr> in
      if \<not> model_ok sv then (Some ModelError, w1)
      else
        let model_name = model_name_of cfg;
            batch_size = batch_size_of cfg
        in (case stream_records lib jsonl_path (w_fs w1) of
              Inl e \<Rightarrow> (Some e, w1)
            | Inr recs \<Rightarrow>
                (case ingest_loop sv lib model_name coll batch_size recs [] [] 0 w1 of
                   (Inl e, w2) \<Rightarrow> (Some e, w2)
                 | (Inr (texts, records, total_count), w2) \<Rightarrow>
                     (case flush_batch sv lib model_name coll texts records w2 of
                        (Some e, w3) \<Rightarrow> (Some e, w3)
                      | (None, w3) \<Rightarrow>
                          (case write_checkpoint_atomic sv lib checkpoints_root
                                  (py_stem (path_name jsonl_path))
                                  (checkpoint_payload clk cfg jsonl_path coll total_count) (w_fs w3) of
                             (Inl e, fs') \<Rightarrow> (Some e, w3\<lparr>w_fs := fs'\<rparr>)
                           | (Inr written, fs') \<Rightarrow> (None, w3\<lparr>w_fs := fs'\<rparr>))))))"

text \<open>
  How a run of \<^verbatim>\<open>main\<close> ends: it returns after the work, it returns at one of the two
  gates, it exits with a status, or an exception leaves it.
\<close>

datatype outcome = Completed | Skipped_done | Skipped_lock | Exited nat | Raised py_error

text \<open>
  \<^verbatim>\<open>main\<close>. The configuration is \<open>None\<close> when its file is missing. The connection and
  \<^verbatim>\<open>ensure_collection\<close> come first; then the two gates; then the locked phase, and the
  \<^verbatim>\<open>finally\<close> that deletes the lock if it exists.
\<close>

definition ingest_main ::
  "services \<Rightarrow> pylib \<Rightarrow> clock \<Rightarrow> config option \<Rightarrow> path \<Rightarrow> path \<Rightarrow> world \<Rightarrow> outcome \<times> world" where
  "ingest_main sv lib clk cfgo cwd jsonl_path w =
     (if \<not> fs_exists (w_fs w) jsonl_path then (Exited 2, w)
      else
        (case cfgo of
           None \<Rightarrow> (Exited 2, w)
         | Some cfg \<Rightarrow>
             if \<not> connect_ok sv then (Raised ConnectionError, w)
             else
               (case ensure_collection sv cfg w of
                  (coll, w1) \<Rightarrow>
                    let checkpoints_root = checkpoints_root_of cwd cfg;
                        lock_path = lock_path_of checkpoints_root jsonl_path;
                        done_path = done_path_of checkpoints_root jsonl_path
                    in if fs_exists (w_fs w1) done_path then (Skipped_done, w1)
                       else if fs_exists (w_fs w1) lock_path then (Skipped_lock, w1)
                       else
                         (case locked_phase sv lib clk cfg coll checkpoints_root jsonl_path w1 of
                            (res, w2) \<Rightarrow>
                              let w3 = (if fs_exists (w_fs w2) lock_path
                                        then w2\<lparr>w_fs := fs_remove (w_fs w2) lock_path\<rparr> else w2)
                              in ((case res of None \<Rightarrow> Completed | Some e \<Rightarrow> Raised e), w3)))))"


section \<open>Watcher: the sweep of \<^verbatim>\<open>watcher.py\<close>\<close>

text \<open>
  The Watcher's folders are relative to the working directory of its process. Its sweep
  runs the Ingestor as a child process in that directory; \<^verbatim>\<open>check=True\<close> raises on a
  status other than 0, which ends the sweep.
\<close>

definition CHECKPOINTS :: "path \<Rightarrow> path" where
  "CHECKPOINTS cwd = cwd @ [''data'', ''checkpoints'']"

definition watcher_DATASETS :: "path \<Rightarrow> path" where
  "watcher_DATASETS cwd = cwd @ [''data'', ''datasets'']"

definition EXCLUDE_NAMES :: "string list" where
  "EXCLUDE_NAMES = [''MANIFEST.jsonl'']"

fun returncode :: "outcome \<Rightarrow> nat" where
  "returncode Completed = 0"
| "returncode Skipped_done = 0"
| "returncode Skipped_lock = 0"
| "returncode (Exited n) = n"
| "returncode (Raised e) = 1"

text \<open>The test of \<^verbatim>\<open>ingest_pending\<close> that passes a file over.\<close>

definition watcher_skips :: "path \<Rightarrow> filesystem \<Rightarrow> path \<Rightarrow> bool" where
  "watcher_skips cwd fs jsonl =
     (path_name jsonl \<in> set EXCLUDE_NAMES
      \<or> fs_exists fs (CHECKPOINTS cwd @ [py_stem (path_name jsonl) @ ''.done''])
      \<or> fs_exists fs (CHECKPOINTS cwd @ [py_stem (path_name jsonl) @ ''.lock'']))"

datatype sweep = Swept | CalledProcessError nat

fun ingest_pending_loop ::
  "services \<Rightarrow> pylib \<Rightarrow> clock \<Rightarrow> config option \<Rightarrow> path \<Rightarrow> path list \<Rightarrow> world \<Rightarrow> sweep \<times> world" where
  "ingest_pending_loop sv lib clk cfgo cwd [] w = (Swept, w)"
| "ingest_pending_loop sv lib clk cfgo cwd (jsonl # rest) w =
     (if watcher_skips cwd (w_fs w) jsonl then ingest_pending_loop sv lib clk cfgo cwd rest w
      else
        (case ingest_main sv lib clk cfgo cwd jsonl w of
           (oc, w') \<Rightarrow>
             if returncode oc = 0 then ingest_pending_loop sv lib clk cfgo cwd rest w'
             else (CalledProcessError (returncode oc), w')))"

text \<open>\<^verbatim>\<open>DATASETS.rglob("*.jsonl")\<close>: the files below the folder whose name ends in \<^verbatim>\<open>.jsonl\<close>.\<close>

definition rglob_jsonl :: "filesystem \<Rightarrow> path \<Rightarrow> path list" where
  "rglob_jsonl fs folder =
     filter (\<lambda>p. length folder < length p \<and> take (length folder) p = folder
                 \<and> ends_with ''.jsonl'' (path_name p)) (map fst fs)"

definition ingest_pending ::
  "services \<Rightarrow> pylib \<Rightarrow> clock \<Rightarrow> config option \<Rightarrow> path \<Rightarrow> world \<Rightarrow> sweep \<times> world" where
  "ingest_pending sv lib clk cfgo cwd w =
     ingest_pending_loop sv lib clk cfgo cwd (rglob_jsonl (w_fs w) (watcher_DATASETS cwd)) w"



section \<open>Notions of the claims\<close>

subsection \<open>The version the claim describes\<close>

text \<open>
  The version of a file of exactly this slug, \<^verbatim>\<open>slug_v<N>.jsonl\<close> with \<open>N\<close> a run of
  digits, and one more than the greatest of them (1 when there is none): what the
  specification says the next version is.
\<close>

definition exact_version :: "string \<Rightarrow> string \<Rightarrow> nat option" where
  "exact_version slug name =
     (if starts_with (slug @ ''_v'') name \<and> ends_with ''.jsonl'' name
         \<and> length slug + 2 + 6 \<le> length name
      then (let ds = take (length name - length slug - 8) (drop (length slug + 2) name)
            in if ds \<noteq> [] \<and> list_all is_digit ds then Some (digits_to_nat ds) else None)
      else None)"

definition claimed_version :: "string list \<Rightarrow> string \<Rightarrow> nat" where
  "claimed_version names slug =
     (let vs = concat (map (\<lambda>n. case exact_version slug n of None \<Rightarrow> [] | Some v \<Rightarrow> [v]) names)
      in if vs = [] then 1 else Max (set vs) + 1)"

text \<open>The versions the code collects, and those of the exact slug, as sets.\<close>

definition code_versions :: "string list \<Rightarrow> string \<Rightarrow> nat set" where
  "code_versions names slug = {v. \<exists>n \<in> set names. glob_slug slug n \<and> version_of n = Some v}"

definition exact_versions :: "string list \<Rightarrow> string \<Rightarrow> nat set" where
  "exact_versions names slug = {v. \<exists>n \<in> set names. exact_version slug n = Some v}"

subsection \<open>Notions of the claims about the Normalizer\<close>




subsection \<open>Notions of the claims about the Ingestor\<close>

text \<open>
  The batches the specification describes: the list cut into pieces of \<open>b\<close> elements, the
  last piece shorter when the length is not a multiple of \<open>b\<close>.
\<close>

function chunks :: "nat \<Rightarrow> 'a list \<Rightarrow> 'a list list" where
  "chunks b xs = (if b = 0 \<or> xs = [] then [] else take b xs # chunks b (drop b xs))"
  by pat_completeness auto
termination
  by (relation "measure (\<lambda>(b, xs). length xs)") auto

declare chunks.simps [simp del]

text \<open>The row stored for a record whose scalar fields can be extracted.\<close>

definition row_of :: "pylib \<Rightarrow> string \<Rightarrow> json \<Rightarrow> row" where
  "row_of lib model_name r =
     make_row (projr (extract_scalar_fields lib r))
       (Embedding model_name (ingest_build_embedding_text (str_repr lib) r)) r"


section \<open>Verified properties\<close>

subsection \<open>Text primitives\<close>

lemma is_space_blank: "is_space (CHR '' '')"
  by (simp add: is_space_def)

lemma hds_Cons:
  "has_double_space (c # r) \<longleftrightarrow> (r \<noteq> [] \<and> c = CHR '' '' \<and> hd r = CHR '' '') \<or> has_double_space r"
  by (cases r) auto

lemma hds_append:
  "has_double_space (a @ b) \<longleftrightarrow>
     has_double_space a \<or> has_double_space b \<or>
     (a \<noteq> [] \<and> b \<noteq> [] \<and> last a = CHR '' '' \<and> hd b = CHR '' '')"
proof (induction a)
  case Nil
  show ?case by simp
next
  case (Cons x a)
  show ?case
  proof (cases a)
    case Nil
    then show ?thesis by (auto simp: hds_Cons)
  next
    case (Cons y a')
    with Cons.IH show ?thesis by (auto simp: hds_Cons)
  qed
qed

lemma strip_split: "\<exists>pre post. s = pre @ py_strip s @ post"
proof -
  let ?t = "dropWhile is_space s"
  have "s = takeWhile is_space s @ ?t" by simp
  moreover have "?t = rev (dropWhile is_space (rev ?t)) @ rev (takeWhile is_space (rev ?t))"
    by (metis rev_append rev_rev_ident takeWhile_dropWhile_id)
  ultimately have "s = takeWhile is_space s @ py_strip s @ rev (takeWhile is_space (rev ?t))"
    by (simp add: py_strip_def)
  then show ?thesis by blast
qed

lemma hds_strip: "has_double_space (py_strip s) \<Longrightarrow> has_double_space s"
proof -
  assume h: "has_double_space (py_strip s)"
  obtain pre post where "s = pre @ py_strip s @ post" using strip_split by blast
  then have "has_double_space s = has_double_space (pre @ py_strip s @ post)" by simp
  with h show ?thesis by (simp add: hds_append)
qed

lemma strip_hd: "py_strip s \<noteq> [] \<Longrightarrow> \<not> is_space (hd (py_strip s))"
proof -
  assume ne: "py_strip s \<noteq> []"
  let ?t = "dropWhile is_space s"
  have t: "?t = py_strip s @ rev (takeWhile is_space (rev ?t))"
    unfolding py_strip_def by (metis rev_append rev_rev_ident takeWhile_dropWhile_id)
  with ne have "hd ?t = hd (py_strip s)" by (metis hd_append2)
  moreover from t ne have "?t \<noteq> []" by (metis Nil_is_append_conv)
  then have "\<not> is_space (hd ?t)" by (rule hd_dropWhile)
  ultimately show ?thesis by simp
qed

lemma strip_last: "py_strip s \<noteq> [] \<Longrightarrow> \<not> is_space (last (py_strip s))"
proof -
  assume ne: "py_strip s \<noteq> []"
  let ?u = "dropWhile is_space (rev (dropWhile is_space s))"
  from ne have u: "?u \<noteq> []" by (simp add: py_strip_def)
  then have "\<not> is_space (hd ?u)" by (rule hd_dropWhile)
  moreover have "last (py_strip s) = hd ?u" using u by (simp add: py_strip_def last_rev)
  ultimately show ?thesis by simp
qed

lemma edge_space_iff: "edge_space s \<longleftrightarrow> s \<noteq> [] \<and> (hd s = CHR '' '' \<or> last s = CHR '' '')"
  by (cases s) (auto simp: edge_space_def)

lemma strip_no_edge: "\<not> edge_space (py_strip s)"
  using strip_hd[of s] strip_last[of s] is_space_blank by (auto simp: edge_space_iff)

lemma join_tidy:
  "(\<And>p. p \<in> set ps \<Longrightarrow> p \<noteq> [] \<and> tidy p) \<Longrightarrow>
   tidy (py_join '' '' ps) \<and> (ps \<noteq> [] \<longrightarrow> py_join '' '' ps \<noteq> [])"
proof (induction ps)
  case Nil
  show ?case by (simp add: tidy_def edge_space_def)
next
  case (Cons x ps)
  show ?case
  proof (cases ps)
    case Nil
    with Cons.prems show ?thesis by simp
  next
    case (Cons y ys)
    let ?r = "py_join '' '' ps"
    from Cons.IH Cons.prems Cons have r: "tidy ?r" "?r \<noteq> []" by auto
    from Cons.prems have x: "x \<noteq> []" "tidy x" by auto
    have "\<not> has_double_space (x @ '' '' @ ?r)"
      using r x by (auto simp: hds_append hds_Cons tidy_def edge_space_iff)
    moreover have "\<not> edge_space (x @ '' '' @ ?r)"
      using r x by (auto simp: tidy_def edge_space_iff)
    ultimately show ?thesis using Cons by (simp add: tidy_def)
  qed
qed

subsection \<open>TextBuilder\<close>

lemma preview_get_in_real: "preview_get_in r p = real_get_in r p"
  by (induction r p rule: preview_get_in.induct) (auto split: json.splits option.splits)

lemma preview_real_agree: "preview_build_embedding_text rep r = real_build_embedding_text rep r"
  by (simp add: preview_build_embedding_text_def real_build_embedding_text_def
      preview_to_text_def real_to_text_def preview_FIELDS_def real_FIELDS_def preview_get_in_real)

lemma preview_no_double:
  assumes "\<forall>p \<in> set preview_FIELDS. tidy (preview_to_text rep (preview_get_in r p))"
  shows "\<not> has_double_space (preview_build_embedding_text rep r)"
proof -
  let ?parts = "map (\<lambda>path. preview_to_text rep (preview_get_in r path)) preview_FIELDS"
  have "tidy (py_join '' '' (filter (\<lambda>p. p \<noteq> []) ?parts))"
    using assms join_tidy[of "filter (\<lambda>p. p \<noteq> []) ?parts"] by auto
  then have "\<not> has_double_space (py_join '' '' (filter (\<lambda>p. p \<noteq> []) ?parts))"
    by (simp add: tidy_def)
  then show ?thesis
    unfolding preview_build_embedding_text_def Let_def using hds_strip by blast
qed

lemmas text_eval =
  ingest_build_embedding_text_def preview_build_embedding_text_def real_build_embedding_text_def
  ingest_FIELDS_def preview_FIELDS_def real_FIELDS_def
  ingest_to_text_def preview_to_text_def real_to_text_def
  py_str_def py_strip_def is_space_def tidy_def edge_space_def

text \<open>
  C1. The claim: the three \<^verbatim>\<open>build_embedding_text\<close> functions return the same string for
  every record. On the record \<^verbatim>\<open>{"important": {"title": "A", "risk": "high"}}\<close> the
  Ingestor's copy joins all seven parts, the five empty ones included, and returns
  \<^verbatim>\<open>A\<close>, six spaces, \<^verbatim>\<open>high\<close>; the preview's and the real-embeddings tool's copies drop
  the empty parts first and return \<^verbatim>\<open>A high\<close>. This holds whatever the rendering of
  values that are not strings is.
\<close>

theorem ingest_text_differs_from_preview:
  "\<forall>rep.
     ingest_build_embedding_text rep
       (JObj [(''important'', JObj [(''title'', JStr ''A''), (''risk'', JStr ''high'')])])
       = ''A      high''
   \<and> preview_build_embedding_text rep
       (JObj [(''important'', JObj [(''title'', JStr ''A''), (''risk'', JStr ''high'')])])
       = ''A high''
   \<and> real_build_embedding_text rep
       (JObj [(''important'', JObj [(''title'', JStr ''A''), (''risk'', JStr ''high'')])])
       = ''A high''"
  by (simp add: text_eval)

text \<open>
  C4, as amended. The text of every copy has no space at either end. The text of the
  preview's and of the real-embeddings tool's copy has no two consecutive spaces whenever
  no field's own text has two consecutive spaces or a space at one of its ends; a missing
  or null field has the empty text, which meets this condition.
\<close>

theorem text_spacing:
  "\<not> edge_space (ingest_build_embedding_text rep r)
   \<and> \<not> edge_space (preview_build_embedding_text rep r)
   \<and> \<not> edge_space (real_build_embedding_text rep r)
   \<and> ((\<forall>p \<in> set preview_FIELDS. tidy (preview_to_text rep (preview_get_in r p))) \<longrightarrow>
        \<not> has_double_space (preview_build_embedding_text rep r)
        \<and> \<not> has_double_space (real_build_embedding_text rep r))"
proof -
  have "\<not> edge_space (ingest_build_embedding_text rep r)"
    by (simp add: ingest_build_embedding_text_def strip_no_edge)
  moreover have "\<not> edge_space (preview_build_embedding_text rep r)"
    by (simp add: preview_build_embedding_text_def Let_def strip_no_edge)
  ultimately show ?thesis
    using preview_no_double[of rep r] preview_real_agree[of rep r] by auto
qed

text \<open>
  The scenario of the specification, with \<^verbatim>\<open>targets.system\<close> missing: every field's text
  is tidy and the text is \<^verbatim>\<open>Sample X malware ransomware a b linux high\<close>.
\<close>

theorem text_spacing_witness:
  "list_all (\<lambda>p. tidy (preview_to_text (\<lambda>v. [])
       (preview_get_in
          (JObj [(''important'', JObj [(''category'', JStr ''malware''),
             (''sub_category'', JStr ''ransomware''), (''title'', JStr ''Sample X''),
             (''tags'', JArr [JStr ''a'', JStr ''b'']),
             (''targets'', JObj [(''os'', JArr [JStr ''linux''])]),
             (''risk'', JStr ''high'')])]) p))) preview_FIELDS
   \<and> preview_build_embedding_text (\<lambda>v. [])
          (JObj [(''important'', JObj [(''category'', JStr ''malware''),
             (''sub_category'', JStr ''ransomware''), (''title'', JStr ''Sample X''),
             (''tags'', JArr [JStr ''a'', JStr ''b'']),
             (''targets'', JObj [(''os'', JArr [JStr ''linux''])]),
             (''risk'', JStr ''high'')])])
       = ''Sample X malware ransomware a b linux high''
   \<and> \<not> has_double_space (preview_build_embedding_text (\<lambda>v. [])
          (JObj [(''important'', JObj [(''category'', JStr ''malware''),
             (''sub_category'', JStr ''ransomware''), (''title'', JStr ''Sample X''),
             (''tags'', JArr [JStr ''a'', JStr ''b'']),
             (''targets'', JObj [(''os'', JArr [JStr ''linux''])]),
             (''risk'', JStr ''high'')])]))
   \<and> \<not> edge_space (preview_build_embedding_text (\<lambda>v. [])
          (JObj [(''important'', JObj [(''category'', JStr ''malware''),
             (''sub_category'', JStr ''ransomware''), (''title'', JStr ''Sample X''),
             (''tags'', JArr [JStr ''a'', JStr ''b'']),
             (''targets'', JObj [(''os'', JArr [JStr ''linux''])]),
             (''risk'', JStr ''high'')])]))"
  using text_spacing[of "\<lambda>v. []"
          "JObj [(''important'', JObj [(''category'', JStr ''malware''),
             (''sub_category'', JStr ''ransomware''), (''title'', JStr ''Sample X''),
             (''tags'', JArr [JStr ''a'', JStr ''b'']),
             (''targets'', JObj [(''os'', JArr [JStr ''linux''])]),
             (''risk'', JStr ''high'')])]"]
  by (simp add: text_eval)

text \<open>
  The claim as stated fails on the code: a title with two spaces inside keeps them in the
  preview's text.
\<close>

theorem text_spacing_counterexample:
  "has_double_space (preview_build_embedding_text (\<lambda>v. [])
       (JObj [(''important'', JObj [(''title'', JStr ''a  b''), (''category'', JStr ''c''),
                                     (''sub_category'', JStr ''d'')])]))"
  by (simp add: text_eval)

subsection \<open>Versions\<close>

lemma digit_cases: "k < 10 \<Longrightarrow> k \<in> {0, 1, 2, 3, 4, 5, 6, 7, 8, 9::nat}"
  by auto

lemma digit_val_char: "k < 10 \<Longrightarrow> digit_val (digit_char k) = k"
  using digit_cases[of k] by (auto simp: digit_val_def digit_char_def)

lemma is_digit_char: "k < 10 \<Longrightarrow> is_digit (digit_char k)"
  using digit_cases[of k] by (auto simp: is_digit_def digit_char_def)

lemma show_nat_digits: "list_all is_digit (show_nat n) \<and> show_nat n \<noteq> []"
proof (induction n rule: show_nat.induct)
  case (1 n)
  show ?case
  proof (cases "n < 10")
    case True
    then show ?thesis by (subst (1 2) show_nat.simps) (simp add: is_digit_char)
  next
    case False
    with 1 show ?thesis by (subst (1 2) show_nat.simps) (simp add: is_digit_char)
  qed
qed

lemma digits_to_nat_snoc: "digits_to_nat (ds @ [c]) = 10 * digits_to_nat ds + digit_val c"
  by (simp add: digits_to_nat_def)

lemma digits_show_nat: "digits_to_nat (show_nat n) = n"
proof (induction n rule: show_nat.induct)
  case (1 n)
  show ?case
  proof (cases "n < 10")
    case True
    then show ?thesis by (subst show_nat.simps) (simp add: digits_to_nat_def digit_val_char)
  next
    case False
    with 1 have "digits_to_nat (show_nat (n div 10)) = n div 10" by simp
    with False show ?thesis
      by (subst show_nat.simps) (simp add: digits_to_nat_snoc digit_val_char)
  qed
qed

lemma v_not_digit: "\<not> is_digit (CHR ''v'')"
  by (simp add: is_digit_def)

lemma ends_with_append: "ends_with suf (xs @ suf)"
  by (simp add: ends_with_def)

lemma starts_with_append: "starts_with pre (pre @ xs)"
  by (simp add: starts_with_def)

lemma version_of_exact:
  assumes "ds \<noteq> []" "list_all is_digit ds"
  shows "version_of (slug @ ''_v'' @ ds @ ''.jsonl'') = Some (digits_to_nat ds)"
proof -
  let ?name = "slug @ ''_v'' @ ds @ ''.jsonl''"
  have e: "ends_with ''.jsonl'' ?name"
    using ends_with_append[of "''.jsonl''" "slug @ ''_v'' @ ds"] by simp
  have body: "take (length ?name - 6) ?name = slug @ ''_v'' @ ds" by simp
  have "rev (slug @ ''_v'' @ ds) = rev ds @ CHR ''v'' # (CHR ''_'' # rev slug)" by simp
  moreover have "takeWhile is_digit (rev ds @ CHR ''v'' # (CHR ''_'' # rev slug)) = rev ds"
    using assms(2) v_not_digit by (simp add: takeWhile_tail list_all_iff)
  ultimately have tw: "rev (takeWhile is_digit (rev (slug @ ''_v'' @ ds))) = ds" by simp
  have pre: "take (length (slug @ ''_v'' @ ds) - length ds) (slug @ ''_v'' @ ds) = slug @ ''_v''"
    by simp
  have ew: "ends_with ''_v'' (slug @ ''_v'')" by (rule ends_with_append)
  show ?thesis
    unfolding version_of_def using e assms(1) ew
    by (simp only: body tw pre Let_def if_True simp_thms)
qed

lemma glob_slug_exact: "ds \<noteq> [] \<Longrightarrow> glob_slug slug (slug @ ''_v'' @ ds @ ''.jsonl'')"
  using ends_with_append[of "''.jsonl''" "slug @ ''_v'' @ ds"] starts_with_append[of "slug @ ''_v''" "ds @ ''.jsonl''"]
  by (cases ds) (simp_all add: glob_slug_def)

lemma exact_versionD:
  assumes "exact_version slug n = Some v"
  shows "\<exists>ds. n = slug @ ''_v'' @ ds @ ''.jsonl'' \<and> ds \<noteq> [] \<and> list_all is_digit ds \<and> v = digits_to_nat ds"
proof -
  let ?ds = "take (length n - length slug - 8) (drop (length slug + 2) n)"
  from assms have s: "starts_with (slug @ ''_v'') n" and e: "ends_with ''.jsonl'' n"
    and l: "length slug + 2 + 6 \<le> length n"
    and d: "?ds \<noteq> []" "list_all is_digit ?ds" "v = digits_to_nat ?ds"
    by (auto simp: exact_version_def Let_def split: if_splits)
  from s have n1: "n = (slug @ ''_v'') @ drop (length slug + 2) n"
  proof -
    have "take (length slug + 2) n = slug @ ''_v''" using s by (simp add: starts_with_def)
    then show ?thesis by (metis append_take_drop_id)
  qed
  from e have n2: "drop (length n - 6) n = ''.jsonl''" by (simp add: ends_with_def eval_nat_numeral)
  have "drop (length slug + 2) n = ?ds @ drop (length n - length slug - 8) (drop (length slug + 2) n)"
    by (simp only: append_take_drop_id)
  also have "drop (length n - length slug - 8) (drop (length slug + 2) n) = drop (length n - 6) n"
  proof -
    have "length n - length slug - 8 + (length slug + 2) = length n - 6" using l by arith
    then show ?thesis by (simp only: drop_drop)
  qed
  finally have "drop (length slug + 2) n = ?ds @ ''.jsonl''" using n2 by simp
  with n1 have "n = slug @ ''_v'' @ ?ds @ ''.jsonl''" by (metis append_assoc)
  with d show ?thesis by blast
qed

lemma set_concat_opt:
  "set (concat (map (\<lambda>n. case f n of None \<Rightarrow> [] | Some v \<Rightarrow> [v]) xs)) = {v. \<exists>n \<in> set xs. f n = Some v}"
  by (induction xs) (auto split: option.splits)

lemma finite_code_versions: "finite (code_versions names slug)"
proof -
  have "code_versions names slug =
        set (concat (map (\<lambda>n. case version_of n of None \<Rightarrow> [] | Some v \<Rightarrow> [v]) (filter (glob_slug slug) names)))"
    by (auto simp: code_versions_def set_concat_opt)
  then show ?thesis by (metis List.finite_set)
qed

lemma finite_exact_versions: "finite (exact_versions names slug)"
proof -
  have "exact_versions names slug =
        set (concat (map (\<lambda>n. case exact_version slug n of None \<Rightarrow> [] | Some v \<Rightarrow> [v]) names))"
    by (auto simp: exact_versions_def set_concat_opt)
  then show ?thesis by (metis List.finite_set)
qed

lemma next_version_alt:
  "next_version names slug =
     (if code_versions names slug = {} then 1 else Max (code_versions names slug) + 1)"
proof -
  let ?vs = "concat (map (\<lambda>n. case version_of n of None \<Rightarrow> [] | Some v \<Rightarrow> [v]) (filter (glob_slug slug) names))"
  have s: "set ?vs = code_versions names slug"
    by (auto simp: code_versions_def set_concat_opt)
  have e: "filter (glob_slug slug) names = [] \<Longrightarrow> code_versions names slug = {}"
    by (auto simp: code_versions_def filter_empty_conv)
  have n: "?vs = [] \<longleftrightarrow> code_versions names slug = {}"
    using s by (metis set_empty)
  show ?thesis
    unfolding next_version_def Let_def using e n s by auto
qed

lemma claimed_version_alt:
  "claimed_version names slug =
     (if exact_versions names slug = {} then 1 else Max (exact_versions names slug) + 1)"
proof -
  let ?vs = "concat (map (\<lambda>n. case exact_version slug n of None \<Rightarrow> [] | Some v \<Rightarrow> [v]) names)"
  have s: "set ?vs = exact_versions names slug"
    by (auto simp: exact_versions_def set_concat_opt)
  have n: "?vs = [] \<longleftrightarrow> exact_versions names slug = {}"
    using s by (metis set_empty)
  show ?thesis
    unfolding claimed_version_def Let_def using n s by auto
qed

lemma exact_sub_code: "exact_versions names slug \<subseteq> code_versions names slug"
proof
  fix v assume "v \<in> exact_versions names slug"
  then obtain n where n: "n \<in> set names" "exact_version slug n = Some v"
    by (auto simp: exact_versions_def)
  from exact_versionD[OF n(2)] obtain ds where
    ds: "n = slug @ ''_v'' @ ds @ ''.jsonl''" "ds \<noteq> []" "list_all is_digit ds" "v = digits_to_nat ds"
    by blast
  have "glob_slug slug n" using ds(1,2) glob_slug_exact by simp
  moreover have "version_of n = Some v" using ds version_of_exact by simp
  ultimately show "v \<in> code_versions names slug" using n(1) by (auto simp: code_versions_def)
qed

lemma code_sub_exact:
  assumes "\<forall>n \<in> set names. glob_slug slug n \<longrightarrow> exact_version slug n \<noteq> None"
  shows "code_versions names slug \<subseteq> exact_versions names slug"
proof
  fix v assume "v \<in> code_versions names slug"
  then obtain n where n: "n \<in> set names" "glob_slug slug n" "version_of n = Some v"
    by (auto simp: code_versions_def)
  with assms obtain v' where v': "exact_version slug n = Some v'" by auto
  from exact_versionD[OF v'] obtain ds where
    ds: "n = slug @ ''_v'' @ ds @ ''.jsonl''" "ds \<noteq> []" "list_all is_digit ds" "v' = digits_to_nat ds"
    by blast
  then have "version_of n = Some v'" using version_of_exact by simp
  with n(3) have "v = v'" by simp
  with v' n(1) show "v \<in> exact_versions names slug" by (auto simp: exact_versions_def)
qed

lemma claimed_le_next: "claimed_version names slug \<le> next_version names slug"
proof (cases "exact_versions names slug = {}")
  case True
  then show ?thesis by (simp add: claimed_version_alt next_version_alt)
next
  case False
  then have ne: "code_versions names slug \<noteq> {}" using exact_sub_code by blast
  have "Max (exact_versions names slug) \<le> Max (code_versions names slug)"
    using False exact_sub_code finite_code_versions by (intro Max_mono) auto
  with False ne show ?thesis by (simp add: claimed_version_alt next_version_alt)
qed

lemma version_name_props:
  "glob_slug slug (version_name slug v) \<and> version_of (version_name slug v) = Some v"
  using show_nat_digits[of v] glob_slug_exact[of "show_nat v" slug]
    version_of_exact[of "show_nat v" slug] digits_show_nat[of v]
  by (simp add: version_name_def)

lemma next_gt_code: "v \<in> code_versions names slug \<Longrightarrow> v < next_version names slug"
proof -
  assume v: "v \<in> code_versions names slug"
  then have "v \<le> Max (code_versions names slug)" using finite_code_versions by (intro Max_ge) auto
  with v show ?thesis by (auto simp: next_version_alt)
qed

lemma next_name_fresh: "version_name slug (next_version names slug) \<notin> set names"
proof
  assume "version_name slug (next_version names slug) \<in> set names"
  then have "next_version names slug \<in> code_versions names slug"
    using version_name_props[of slug "next_version names slug"] by (auto simp: code_versions_def)
  then show False using next_gt_code by blast
qed

lemma next_version_step:
  "next_version (version_name slug (next_version names slug) # names) slug = next_version names slug + 1"
proof -
  let ?v = "next_version names slug"
  have c: "code_versions (version_name slug ?v # names) slug = insert ?v (code_versions names slug)"
    using version_name_props[of slug ?v] by (auto simp: code_versions_def)
  have "Max (insert ?v (code_versions names slug)) = ?v"
  proof (rule Max_eqI)
    show "finite (insert ?v (code_versions names slug))" using finite_code_versions by simp
    show "\<And>y. y \<in> insert ?v (code_versions names slug) \<Longrightarrow> y \<le> ?v"
      using next_gt_code[of _ names slug] by (auto simp: less_imp_le)
    show "?v \<in> insert ?v (code_versions names slug)" by simp
  qed
  then show ?thesis by (simp add: next_version_alt[of "version_name slug ?v # names"] c)
qed

lemma next_eq_claimed:
  assumes "\<forall>n \<in> set names. glob_slug slug n \<longrightarrow> exact_version slug n \<noteq> None"
  shows "next_version names slug = claimed_version names slug"
proof -
  have "code_versions names slug = exact_versions names slug"
    using code_sub_exact[OF assms] exact_sub_code by blast
  then show ?thesis by (simp add: claimed_version_alt next_version_alt)
qed

lemmas version_eval =
  next_version_def claimed_version_def exact_version_def glob_slug_def version_of_def
  starts_with_def ends_with_def is_digit_def digits_to_nat_def digit_val_def version_name_def

text \<open>
  C6, as amended. The version chosen is one more than the greatest \<open>N\<close> among the names in
  the folder that the pattern \<^verbatim>\<open>slug_v*.jsonl\<close> matches and that end in
  \<^verbatim>\<open>_v<N>.jsonl\<close> (1 when there is none). It is never below one more than the greatest
  version of the exact slug, and it equals that number when every name the pattern
  matches is a file \<^verbatim>\<open>slug_v<N>.jsonl\<close> of the exact slug. The chosen name is not a name
  of the folder, so no file is overwritten, and once the file is there the next version is
  one higher.
\<close>

theorem next_version_above_exact_slug:
  "claimed_version names slug \<le> next_version names slug
   \<and> ((\<forall>n \<in> set names. glob_slug slug n \<longrightarrow> exact_version slug n \<noteq> None) \<longrightarrow>
        next_version names slug = claimed_version names slug)
   \<and> version_name slug (next_version names slug) \<notin> set names
   \<and> last (next_version_path fs folder slug) = version_name slug (next_version (fs_names fs folder) slug)
   \<and> next_version (version_name slug (next_version names slug) # names) slug
        = next_version names slug + 1"
  using claimed_le_next next_eq_claimed next_name_fresh next_version_step
  by (simp add: next_version_path_def)

text \<open>A folder with versions 1 and 3 of \<^verbatim>\<open>foo\<close>: the next file is \<^verbatim>\<open>foo_v4.jsonl\<close>.\<close>

theorem next_version_above_exact_slug_witness:
  "list_all (\<lambda>n. \<not> glob_slug ''foo'' n \<or> exact_version ''foo'' n \<noteq> None)
      [''foo_v1.jsonl'', ''foo_v3.jsonl'', ''MANIFEST.jsonl'']
   \<and> claimed_version [''foo_v1.jsonl'', ''foo_v3.jsonl'', ''MANIFEST.jsonl''] ''foo'' = 4
   \<and> next_version [''foo_v1.jsonl'', ''foo_v3.jsonl'', ''MANIFEST.jsonl''] ''foo'' = 4
   \<and> version_name ''foo'' 4 = ''foo_v4.jsonl''
   \<and> ''foo_v4.jsonl'' \<notin> set [''foo_v1.jsonl'', ''foo_v3.jsonl'', ''MANIFEST.jsonl'']
   \<and> next_version [''foo_v4.jsonl'', ''foo_v1.jsonl'', ''foo_v3.jsonl'', ''MANIFEST.jsonl''] ''foo'' = 5"
proof -
  have c: "claimed_version [''foo_v1.jsonl'', ''foo_v3.jsonl'', ''MANIFEST.jsonl''] ''foo'' = 4"
    by (simp add: version_eval)
  have h: "\<forall>n \<in> set [''foo_v1.jsonl'', ''foo_v3.jsonl'', ''MANIFEST.jsonl''].
             glob_slug ''foo'' n \<longrightarrow> exact_version ''foo'' n \<noteq> None"
    by (simp add: version_eval)
  have n: "version_name ''foo'' 4 = ''foo_v4.jsonl''"
    by (simp add: version_name_def show_nat.simps digit_char_def)
  let ?names = "[''foo_v1.jsonl'', ''foo_v3.jsonl'', ''MANIFEST.jsonl'']"
  note t = next_version_above_exact_slug[of ?names "''foo''"]
  from t h have e: "next_version ?names ''foo'' = claimed_version ?names ''foo''" by blast
  with c have v: "next_version ?names ''foo'' = 4" by simp
  from t have "version_name ''foo'' (next_version ?names ''foo'') \<notin> set ?names" by blast
  with v n have f: "''foo_v4.jsonl'' \<notin> set ?names" by simp
  from t have "next_version (version_name ''foo'' (next_version ?names ''foo'') # ?names) ''foo''
                = next_version ?names ''foo'' + 1" by blast
  with v n have s: "next_version (''foo_v4.jsonl'' # ?names) ''foo'' = 5" by simp
  have l: "list_all (\<lambda>n. \<not> glob_slug ''foo'' n \<or> exact_version ''foo'' n \<noteq> None) ?names"
    using h by (simp add: list_all_iff)
  from l c v n f s show ?thesis by blast
qed

text \<open>
  The claim as stated fails on the code: \<^verbatim>\<open>foo_v2_v7.jsonl\<close> is version 7 of the slug
  \<^verbatim>\<open>foo_v2\<close> (the slug of the title \<^verbatim>\<open>Foo v2\<close>), the folder has no file of the slug
  \<^verbatim>\<open>foo\<close>, and the version chosen for \<^verbatim>\<open>foo\<close> is 8, not 1.
\<close>

theorem next_version_counterexample:
  "next_version [''foo_v2_v7.jsonl''] ''foo'' = 8 \<and> claimed_version [''foo_v2_v7.jsonl''] ''foo'' = 1"
  by (simp add: version_eval)

subsection \<open>The file system\<close>

lemma map_of_filter_fst:
  "map_of (filter (\<lambda>e. fst e \<noteq> p) fs) q = (if q = p then None else map_of fs q)"
  by (induction fs) auto

lemma read_remove: "fs_read (fs_remove fs p) q = (if q = p then None else fs_read fs q)"
  by (simp add: fs_read_def fs_remove_def map_of_filter_fst)

lemma read_write: "fs_read (fs_write fs p s) q = (if q = p then Some s else fs_read fs q)"
  by (simp add: fs_write_def fs_read_def fs_remove_def map_of_filter_fst)


lemma read_move:
  "fs_read fs a = Some s \<Longrightarrow>
   fs_read (fs_move fs a b) q = (if q = b then Some s else if q = a then None else fs_read fs q)"
  by (simp add: fs_move_def read_write read_remove)

lemma exists_read: "fs_exists fs p \<longleftrightarrow> fs_read fs p \<noteq> None"
  by (simp add: fs_exists_def fs_read_def)


subsection \<open>The JSONL loop\<close>



subsection \<open>Names and folders\<close>







subsection \<open>A malformed JSONL submission\<close>





subsection \<open>A single JSON object\<close>



















subsection \<open>The Ingestor and the files\<close>

lemma ensure_collection_frame:
  "w_fs (snd (ensure_collection sv cfg w)) = w_fs w"
  "w_encode_calls (snd (ensure_collection sv cfg w)) = w_encode_calls w"
  "w_inserts (snd (ensure_collection sv cfg w)) = w_inserts w"
  "fst (ensure_collection sv cfg w) = collection_name cfg"
  by (simp_all add: ensure_collection_def Let_def)

lemma flush_batch_fs: "flush_batch sv lib m coll texts records w = (r, w') \<Longrightarrow> w_fs w' = w_fs w"
  by (auto simp: flush_batch_def Let_def split: if_splits sum.splits)

lemma ingest_loop_fs:
  "ingest_loop sv lib m coll b recs texts records tot w = (r, w') \<Longrightarrow> w_fs w' = w_fs w"
proof (induction recs arbitrary: texts records tot w)
  case Nil
  then show ?case by simp
next
  case (Cons rec recs)
  let ?texts = "texts @ [ingest_build_embedding_text (str_repr lib) rec]"
  let ?records = "records @ [rec]"
  show ?case
  proof (cases "int (length ?texts) \<ge> b")
    case False
    with Cons.prems have "ingest_loop sv lib m coll b recs ?texts ?records (tot + 1) w = (r, w')"
      by (simp add: Let_def)
    from Cons.IH[OF this] show ?thesis .
  next
    case True
    obtain e w1 where f: "flush_batch sv lib m coll ?texts ?records w = (e, w1)" by force
    then have w1: "w_fs w1 = w_fs w" by (rule flush_batch_fs)
    show ?thesis
    proof (cases e)
      case None
      with Cons.prems True f have "ingest_loop sv lib m coll b recs [] [] (tot + 1) w1 = (r, w')"
        by (simp add: Let_def)
      from Cons.IH[OF this] w1 show ?thesis by simp
    next
      case (Some err)
      with Cons.prems True f have "w' = w1" by (simp add: Let_def)
      with w1 show ?thesis by simp
    qed
  qed
qed

lemma marker_paths_distinct:
  "done_path_of root p \<noteq> lock_path_of root p"
  "done_path_of root p \<noteq> root @ [py_stem (path_name p) @ ''.done.tmp'']"
  "lock_path_of root p \<noteq> root @ [py_stem (path_name p) @ ''.done.tmp'']"
  by (simp_all add: done_path_of_def lock_path_of_def)

lemma write_checkpoint_fail:
  "write_checkpoint_atomic sv lib root (py_stem (path_name p)) payload fs = (Inl e, fs') \<Longrightarrow>
   fs_read fs' (done_path_of root p) = fs_read fs (done_path_of root p)
   \<and> fs_read fs' (lock_path_of root p) = fs_read fs (lock_path_of root p)"
  using marker_paths_distinct[of root p]
  by (auto simp: write_checkpoint_atomic_def Let_def read_write split: if_splits)

lemma write_checkpoint_done:
  "write_checkpoint_atomic sv lib root (py_stem (path_name p)) payload fs = (Inr d, fs') \<Longrightarrow>
   fs_read fs' (done_path_of root p) = Some (json_dumps_indent lib payload)
   \<and> fs_read fs' (lock_path_of root p) = fs_read fs (lock_path_of root p)"
proof -
  let ?tmp = "root @ [py_stem (path_name p) @ ''.done.tmp'']"
  let ?fs1 = "fs_write fs ?tmp (json_dumps_indent lib payload)"
  assume a: "write_checkpoint_atomic sv lib root (py_stem (path_name p)) payload fs = (Inr d, fs')"
  then have fs': "fs' = fs_move ?fs1 ?tmp (done_path_of root p)"
    by (auto simp: write_checkpoint_atomic_def Let_def done_path_of_def split: if_splits)
  have r: "fs_read ?fs1 ?tmp = Some (json_dumps_indent lib payload)" by (simp add: read_write)
  show ?thesis
    unfolding fs' using marker_paths_distinct[of root p]
    by (simp add: read_move[OF r] read_write)
qed

text \<open>What the locked phase leaves in the files, by its result.\<close>

lemma locked_phase_markers:
  assumes "locked_phase sv lib clk cfg coll root p w = (res, w2)"
  shows "fs_read (w_fs w2) (lock_path_of root p) = Some ''lock''"
    and "res \<noteq> None \<Longrightarrow> fs_read (w_fs w2) (done_path_of root p) = fs_read (w_fs w) (done_path_of root p)"
    and "res = None \<Longrightarrow> \<exists>n. fs_read (w_fs w2) (done_path_of root p)
            = Some (json_dumps_indent lib (checkpoint_payload clk cfg p coll n))"
proof -
  define w1 where "w1 = w\<lparr>w_fs := fs_write (w_fs w) (lock_path_of root p) ''lock''\<rparr>"
  have l1: "fs_read (w_fs w1) (lock_path_of root p) = Some ''lock''"
    by (simp add: w1_def read_write)
  have d1: "fs_read (w_fs w1) (done_path_of root p) = fs_read (w_fs w) (done_path_of root p)"
    using marker_paths_distinct(1)[of root p] by (simp add: w1_def read_write)
  define mname where "mname = model_name_of cfg"
  define b where "b = batch_size_of cfg"
  have all: "fs_read (w_fs w2) (lock_path_of root p) = Some ''lock''
     \<and> (res \<noteq> None \<longrightarrow> fs_read (w_fs w2) (done_path_of root p) = fs_read (w_fs w) (done_path_of root p))
     \<and> (res = None \<longrightarrow> (\<exists>n. fs_read (w_fs w2) (done_path_of root p)
            = Some (json_dumps_indent lib (checkpoint_payload clk cfg p coll n))))"
  proof (cases "model_ok sv")
    case False
    with assms have "res = Some ModelError" "w2 = w1"
      by (simp_all add: locked_phase_def Let_def w1_def)
    with l1 d1 show ?thesis by simp
  next
    case mok: True
    show ?thesis
    proof (cases "stream_records lib p (w_fs w1)")
      case (Inl e)
      with assms mok have "res = Some e" "w2 = w1"
        by (simp_all add: locked_phase_def Let_def w1_def)
      with l1 d1 show ?thesis by simp
    next
      case (Inr recs)
      obtain r1 wa where lp: "ingest_loop sv lib mname coll b recs [] [] 0 w1 = (r1, wa)" by force
      from ingest_loop_fs[OF lp] have fa: "w_fs wa = w_fs w1" .
      show ?thesis
      proof (cases r1)
        case (Inl e)
        with assms mok Inr lp have "res = Some e" "w2 = wa"
          by (simp_all add: locked_phase_def Let_def w1_def[symmetric] mname_def[symmetric] b_def[symmetric])
        with l1 d1 fa show ?thesis by simp
      next
        case r1: (Inr trip)
        obtain texts records tot where trip: "trip = (texts, records, tot)" by (cases trip) auto
        obtain r2 wb where fl: "flush_batch sv lib mname coll texts records wa = (r2, wb)" by force
        from flush_batch_fs[OF fl] fa have fb: "w_fs wb = w_fs w1" by simp
        show ?thesis
        proof (cases r2)
          case (Some e)
          with assms mok Inr lp r1 trip fl have "res = Some e" "w2 = wb"
            by (simp_all add: locked_phase_def Let_def w1_def[symmetric] mname_def[symmetric] b_def[symmetric])
          with l1 d1 fb show ?thesis by simp
        next
          case None
          obtain r3 fs3 where wc: "write_checkpoint_atomic sv lib root (py_stem (path_name p))
                (checkpoint_payload clk cfg p coll tot) (w_fs wb) = (r3, fs3)" by force
          show ?thesis
          proof (cases r3)
            case (Inl e)
            with assms mok Inr lp r1 trip fl None wc have "res = Some e" "w2 = wb\<lparr>w_fs := fs3\<rparr>"
              by (simp_all add: locked_phase_def Let_def w1_def[symmetric] mname_def[symmetric] b_def[symmetric])
            with write_checkpoint_fail[OF wc[unfolded Inl]] l1 d1 fb show ?thesis by simp
          next
            case r3: (Inr d)
            with assms mok Inr lp r1 trip fl None wc have "res = None" "w2 = wb\<lparr>w_fs := fs3\<rparr>"
              by (simp_all add: locked_phase_def Let_def w1_def[symmetric] mname_def[symmetric] b_def[symmetric])
            with write_checkpoint_done[OF wc[unfolded r3]] l1 fb show ?thesis by auto
          qed
        qed
      qed
    qed
  qed
  from all show "fs_read (w_fs w2) (lock_path_of root p) = Some ''lock''" by blast
  from all show "res \<noteq> None \<Longrightarrow> fs_read (w_fs w2) (done_path_of root p) = fs_read (w_fs w) (done_path_of root p)"
    by blast
  from all show "res = None \<Longrightarrow> \<exists>n. fs_read (w_fs w2) (done_path_of root p)
            = Some (json_dumps_indent lib (checkpoint_payload clk cfg p coll n))" by blast
qed

subsection \<open>The gates and the lock\<close>

lemma ingest_main_gate_open:
  assumes ex: "fs_exists (w_fs w) p" and c: "connect_ok sv"
    and nd: "\<not> fs_exists (w_fs w) (done_path_of (checkpoints_root_of cwd cfg) p)"
    and nl: "\<not> fs_exists (w_fs w) (lock_path_of (checkpoints_root_of cwd cfg) p)"
    and lp: "locked_phase sv lib clk cfg (collection_name cfg) (checkpoints_root_of cwd cfg) p
               (snd (ensure_collection sv cfg w)) = (res, w2)"
  shows "ingest_main sv lib clk (Some cfg) cwd p w =
           ((case res of None \<Rightarrow> Completed | Some e \<Rightarrow> Raised e),
            w2\<lparr>w_fs := fs_remove (w_fs w2) (lock_path_of (checkpoints_root_of cwd cfg) p)\<rparr>)"
proof -
  obtain coll w1 where e: "ensure_collection sv cfg w = (coll, w1)" by force
  then have c1: "coll = collection_name cfg" and f1: "w_fs w1 = w_fs w"
    using ensure_collection_frame(1,4)[of sv cfg w] by simp_all
  from lp e c1 have lp': "locked_phase sv lib clk cfg coll (checkpoints_root_of cwd cfg) p w1 = (res, w2)"
    by simp
  from locked_phase_markers(1)[OF lp'] have "fs_exists (w_fs w2) (lock_path_of (checkpoints_root_of cwd cfg) p)"
    by (simp add: exists_read)
  with ex c nd nl e f1 lp' show ?thesis
    by (simp add: ingest_main_def Let_def)
qed

text \<open>
  C5. The markers are absent when the run starts, so the run is not stopped at a gate;
  if an exception leaves \<^verbatim>\<open>main\<close> (from the model load, an embedding call, the rows, an
  insert or the write of the checkpoint), then afterwards the lock does not exist and no
  checkpoint exists, and a later run, whatever its services, is not stopped at a gate.
\<close>

theorem failure_releases_lock_without_checkpoint:
  assumes "ingest_main sv lib clk (Some cfg) cwd p w = (Raised e, w')"
    and "\<not> fs_exists (w_fs w) (done_path_of (checkpoints_root_of cwd cfg) p)"
    and "\<not> fs_exists (w_fs w) (lock_path_of (checkpoints_root_of cwd cfg) p)"
  shows "\<not> fs_exists (w_fs w') (lock_path_of (checkpoints_root_of cwd cfg) p)
       \<and> \<not> fs_exists (w_fs w') (done_path_of (checkpoints_root_of cwd cfg) p)
       \<and> (\<forall>sv2 lib2 clk2. fst (ingest_main sv2 lib2 clk2 (Some cfg) cwd p w') \<noteq> Skipped_done
                         \<and> fst (ingest_main sv2 lib2 clk2 (Some cfg) cwd p w') \<noteq> Skipped_lock)"
proof -
  define root where "root = checkpoints_root_of cwd cfg"
  note nd = assms(2)[folded root_def] and nl = assms(3)[folded root_def]
  have marks: "\<not> fs_exists (w_fs w') (lock_path_of root p) \<and> \<not> fs_exists (w_fs w') (done_path_of root p)"
  proof (cases "fs_exists (w_fs w) p \<and> connect_ok sv")
    case False
    with assms(1) have "w' = w" by (auto simp: ingest_main_def split: if_splits)
    with nd nl show ?thesis by simp
  next
    case True
    obtain res w2 where lp: "locked_phase sv lib clk cfg (collection_name cfg) root p
               (snd (ensure_collection sv cfg w)) = (res, w2)" by force
    from ingest_main_gate_open[OF _ _ assms(2,3) lp[unfolded root_def]] True assms(1)
    have r: "res = Some e" and w': "w' = w2\<lparr>w_fs := fs_remove (w_fs w2) (lock_path_of root p)\<rparr>"
      by (auto simp: root_def split: option.splits)
    from locked_phase_markers(2)[OF lp] r
    have "fs_read (w_fs w2) (done_path_of root p) = fs_read (w_fs w) (done_path_of root p)"
      by (simp add: ensure_collection_frame)
    with nd have "\<not> fs_exists (w_fs w2) (done_path_of root p)" by (simp add: exists_read)
    then show ?thesis
      unfolding w' using marker_paths_distinct(1)[of root p] by (simp add: exists_read read_remove)
  qed
  have again: "\<And>sv2 lib2 clk2. fst (ingest_main sv2 lib2 clk2 (Some cfg) cwd p w') \<noteq> Skipped_done
                         \<and> fst (ingest_main sv2 lib2 clk2 (Some cfg) cwd p w') \<noteq> Skipped_lock"
  proof -
    fix sv2 lib2 clk2
    obtain coll w1 where e: "ensure_collection sv2 cfg w' = (coll, w1)" by force
    then have f1: "w_fs w1 = w_fs w'" using ensure_collection_frame(1)[of sv2 cfg w'] by simp
    obtain res w2 where lp: "locked_phase sv2 lib2 clk2 cfg coll root p w1 = (res, w2)" by force
    show "fst (ingest_main sv2 lib2 clk2 (Some cfg) cwd p w') \<noteq> Skipped_done
                         \<and> fst (ingest_main sv2 lib2 clk2 (Some cfg) cwd p w') \<noteq> Skipped_lock"
      using marks e f1 lp
      by (auto simp: ingest_main_def Let_def root_def split: option.splits)
  qed
  from marks again show ?thesis unfolding root_def by blast
qed

lemmas ingest_eval =
  ingest_main_def locked_phase_def ensure_collection_def collection_name_def
  model_name_of_def batch_size_of_def
  checkpoints_root_of_def lock_path_of_def done_path_of_def
  stream_records_def records_of_lines_def flush_batch_def write_checkpoint_atomic_def
  checkpoint_payload_def extract_scalar_fields_def dict_get_def list_to_str_def make_row_def
  path_name_def py_stem_def rfind_dot_def py_lines_def py_strip_def is_space_def path_str_def
  fs_read_def fs_exists_def fs_remove_def fs_write_def fs_move_def

text \<open>A run whose first insert raises: the lock is gone and no checkpoint stands.\<close>

theorem failure_releases_lock_without_checkpoint_witness:
  "(let sv = \<lparr>connect_ok = True, create_index_ok = True, model_ok = True, encode_fails = [],
               insert_fails = [0], tmp_write_ok = True, replace_ok = True\<rparr>;
        lib = \<lparr>str_repr = (\<lambda>v. []), json_loads = (\<lambda>s. if s = ''{}'' then Some (JObj []) else None),
               json_dumps = (\<lambda>v. ''{}''), json_dumps_indent = (\<lambda>v. ''{}'')\<rparr>;
        clk = \<lparr>clk_date = ''d'', clk_hms = ''h'', clk_utc = ''u''\<rparr>;
        cfg = \<lparr>cfg_collection_name = None, cfg_dim = None, cfg_model_name = None,
               cfg_batch_size = None, cfg_checkpoints_root = None\<rparr>;
        p = [''w'', ''data'', ''datasets'', ''a'', ''b'', ''x_v1.jsonl''];
        w = \<lparr>w_fs = [(p, ''{}\<newline>'')], w_collections = [], w_index_calls = [],
             w_encode_calls = [], w_inserts = []\<rparr>;
        res = ingest_main sv lib clk (Some cfg) [''w''] p w
    in \<not> fs_exists (w_fs w) (done_path_of (checkpoints_root_of [''w''] cfg) p)
       \<and> \<not> fs_exists (w_fs w) (lock_path_of (checkpoints_root_of [''w''] cfg) p)
       \<and> fst res = Raised InsertError
       \<and> w_encode_calls (snd res) = [[[]]]
       \<and> w_fs (snd res) = [(p, ''{}\<newline>'')]
       \<and> \<not> fs_exists (w_fs (snd res)) (lock_path_of (checkpoints_root_of [''w''] cfg) p)
       \<and> \<not> fs_exists (w_fs (snd res)) (done_path_of (checkpoints_root_of [''w''] cfg) p))"
proof -
  let ?sv = "\<lparr>connect_ok = True, create_index_ok = True, model_ok = True, encode_fails = [],
               insert_fails = [0], tmp_write_ok = True, replace_ok = True\<rparr>"
  let ?lib = "\<lparr>str_repr = (\<lambda>v. []), json_loads = (\<lambda>s. if s = ''{}'' then Some (JObj []) else None),
               json_dumps = (\<lambda>v. ''{}''), json_dumps_indent = (\<lambda>v. ''{}'')\<rparr>"
  let ?clk = "\<lparr>clk_date = ''d'', clk_hms = ''h'', clk_utc = ''u''\<rparr>"
  let ?cfg = "\<lparr>cfg_collection_name = None, cfg_dim = None, cfg_model_name = None,
               cfg_batch_size = None, cfg_checkpoints_root = None\<rparr>"
  let ?p = "[''w'', ''data'', ''datasets'', ''a'', ''b'', ''x_v1.jsonl'']"
  let ?w = "\<lparr>w_fs = [(?p, ''{}\<newline>'')], w_collections = [], w_index_calls = [],
             w_encode_calls = [], w_inserts = []\<rparr>"
  let ?w' = "\<lparr>w_fs = [(?p, ''{}\<newline>'')], w_collections = [''attacks_v2''],
              w_index_calls = [(''attacks_v2'', True)], w_encode_calls = [[[]]], w_inserts = []\<rparr>"
  have e: "ingest_main ?sv ?lib ?clk (Some ?cfg) [''w''] ?p ?w = (Raised InsertError, ?w')"
    by (simp add: ingest_eval text_eval Let_def)
  have h2: "\<not> fs_exists (w_fs ?w) (done_path_of (checkpoints_root_of [''w''] ?cfg) ?p)"
    by (simp add: ingest_eval)
  have h3: "\<not> fs_exists (w_fs ?w) (lock_path_of (checkpoints_root_of [''w''] ?cfg) ?p)"
    by (simp add: ingest_eval)
  from failure_releases_lock_without_checkpoint[OF e h2 h3] h2 h3 show ?thesis
    by (simp add: e Let_def)
qed

subsection \<open>The gates of the Ingestor and of the Watcher\<close>

lemma gate_closed:
  assumes "fs_exists (w_fs w) (done_path_of (checkpoints_root_of cwd cfg) p)
         \<or> fs_exists (w_fs w) (lock_path_of (checkpoints_root_of cwd cfg) p)"
  shows "\<exists>oc w'. ingest_main sv lib clk (Some cfg) cwd p w = (oc, w')
       \<and> oc \<noteq> Completed
       \<and> (w' = w \<or> w' = snd (ensure_collection sv cfg w))
       \<and> w_fs w' = w_fs w \<and> w_encode_calls w' = w_encode_calls w \<and> w_inserts w' = w_inserts w
       \<and> (fs_exists (w_fs w) p \<and> connect_ok sv \<longrightarrow>
            (oc = Skipped_done \<or> oc = Skipped_lock) \<and> w' = snd (ensure_collection sv cfg w))"
proof -
  obtain coll w1 where e: "ensure_collection sv cfg w = (coll, w1)" by force
  then have f: "w_fs w1 = w_fs w" "w_encode_calls w1 = w_encode_calls w" "w_inserts w1 = w_inserts w"
    using ensure_collection_frame(1,2,3)[of sv cfg w] by simp_all
  show ?thesis
  proof (cases "fs_exists (w_fs w) p \<and> connect_ok sv")
    case False
    then have "ingest_main sv lib clk (Some cfg) cwd p w = (Exited 2, w)
             \<or> ingest_main sv lib clk (Some cfg) cwd p w = (Raised ConnectionError, w)"
      by (auto simp: ingest_main_def)
    with False show ?thesis by auto
  next
    case True
    show ?thesis
    proof (cases "fs_exists (w_fs w) (done_path_of (checkpoints_root_of cwd cfg) p)")
      case d: True
      with True e f have "ingest_main sv lib clk (Some cfg) cwd p w = (Skipped_done, w1)"
        by (simp add: ingest_main_def Let_def)
      with e f show ?thesis by simp
    next
      case d: False
      with assms have "fs_exists (w_fs w) (lock_path_of (checkpoints_root_of cwd cfg) p)" by simp
      with d True e f have "ingest_main sv lib clk (Some cfg) cwd p w = (Skipped_lock, w1)"
        by (simp add: ingest_main_def Let_def)
      with e f show ?thesis by simp
    qed
  qed
qed

text \<open>
  C2, as amended. A Checkpoint or a Lock for the file's stem exists. Then \<^verbatim>\<open>main\<close> does
  not do the work: no file is written, nothing is embedded, nothing is inserted, and the
  world is either untouched (the run ended before the gates) or what the schema-ensure
  step left. When the dataset file exists and the connection is made, the run ends at a
  gate, after \<^verbatim>\<open>ensure_collection\<close> has created the collection if it was missing and has
  called \<^verbatim>\<open>create_index\<close>.
\<close>

theorem gate_skips_after_schema_ensure:
  assumes "fs_exists (w_fs w) (done_path_of (checkpoints_root_of cwd cfg) p)
         \<or> fs_exists (w_fs w) (lock_path_of (checkpoints_root_of cwd cfg) p)"
  shows "\<exists>oc w'. ingest_main sv lib clk (Some cfg) cwd p w = (oc, w')
       \<and> oc \<noteq> Completed
       \<and> (w' = w \<or> w' = snd (ensure_collection sv cfg w))
       \<and> w_fs w' = w_fs w \<and> w_encode_calls w' = w_encode_calls w \<and> w_inserts w' = w_inserts w
       \<and> (fs_exists (w_fs w) p \<and> connect_ok sv \<longrightarrow>
            (oc = Skipped_done \<or> oc = Skipped_lock) \<and> w' = snd (ensure_collection sv cfg w))"
  using assms by (rule gate_closed)

text \<open>A world with the checkpoint and with the collection: the run ends at the first gate.\<close>

theorem gate_skips_after_schema_ensure_witness:
  "(let sv = \<lparr>connect_ok = True, create_index_ok = True, model_ok = True, encode_fails = [],
               insert_fails = [], tmp_write_ok = True, replace_ok = True\<rparr>;
        lib = \<lparr>str_repr = (\<lambda>v. []), json_loads = (\<lambda>s. None),
               json_dumps = (\<lambda>v. []), json_dumps_indent = (\<lambda>v. [])\<rparr>;
        clk = \<lparr>clk_date = ''d'', clk_hms = ''h'', clk_utc = ''u''\<rparr>;
        cfg = \<lparr>cfg_collection_name = None, cfg_dim = None, cfg_model_name = None,
               cfg_batch_size = None, cfg_checkpoints_root = None\<rparr>;
        p = [''w'', ''data'', ''datasets'', ''a'', ''b'', ''x_v1.jsonl''];
        w = \<lparr>w_fs = [(p, ''{}''), ([''w'', ''data'', ''checkpoints'', ''x_v1.done''], ''{}'')],
             w_collections = [''attacks_v2''], w_index_calls = [],
             w_encode_calls = [], w_inserts = []\<rparr>;
        res = ingest_main sv lib clk (Some cfg) [''w''] p w
    in fs_exists (w_fs w) (done_path_of (checkpoints_root_of [''w''] cfg) p)
       \<and> fst res = Skipped_done
       \<and> w_fs (snd res) = w_fs w \<and> w_encode_calls (snd res) = [] \<and> w_inserts (snd res) = []
       \<and> w_collections (snd res) = [''attacks_v2'']
       \<and> w_index_calls (snd res) = [(''attacks_v2'', True)])"
proof -
  let ?sv = "\<lparr>connect_ok = True, create_index_ok = True, model_ok = True, encode_fails = [],
               insert_fails = [], tmp_write_ok = True, replace_ok = True\<rparr>"
  let ?lib = "\<lparr>str_repr = (\<lambda>v. []), json_loads = (\<lambda>s. None),
               json_dumps = (\<lambda>v. []), json_dumps_indent = (\<lambda>v. [])\<rparr>"
  let ?clk = "\<lparr>clk_date = ''d'', clk_hms = ''h'', clk_utc = ''u''\<rparr>"
  let ?cfg = "\<lparr>cfg_collection_name = None, cfg_dim = None, cfg_model_name = None,
               cfg_batch_size = None, cfg_checkpoints_root = None\<rparr>"
  let ?p = "[''w'', ''data'', ''datasets'', ''a'', ''b'', ''x_v1.jsonl'']"
  let ?w = "\<lparr>w_fs = [(?p, ''{}''), ([''w'', ''data'', ''checkpoints'', ''x_v1.done''], ''{}'')],
             w_collections = [''attacks_v2''], w_index_calls = [],
             w_encode_calls = [], w_inserts = []\<rparr>"
  have h: "fs_exists (w_fs ?w) (done_path_of (checkpoints_root_of [''w''] ?cfg) ?p)
         \<or> fs_exists (w_fs ?w) (lock_path_of (checkpoints_root_of [''w''] ?cfg) ?p)"
    by (simp add: ingest_eval)
  have e: "ingest_main ?sv ?lib ?clk (Some ?cfg) [''w''] ?p ?w
            = (Skipped_done, ?w\<lparr>w_index_calls := [(''attacks_v2'', True)]\<rparr>)"
    by (simp add: ingest_eval Let_def)
  have x: "fs_exists (w_fs ?w) (done_path_of (checkpoints_root_of [''w''] ?cfg) ?p)"
    by (simp add: ingest_eval)
  let ?res = "ingest_main ?sv ?lib ?clk (Some ?cfg) [''w''] ?p ?w"
  from gate_skips_after_schema_ensure[OF h, of ?sv ?lib ?clk]
  have a: "w_fs (snd ?res) = w_fs ?w \<and> w_encode_calls (snd ?res) = w_encode_calls ?w
            \<and> w_inserts (snd ?res) = w_inserts ?w"
    by auto
  have b: "fst ?res = Skipped_done" "w_collections (snd ?res) = [''attacks_v2'']"
    "w_index_calls (snd ?res) = [(''attacks_v2'', True)]"
    by (simp_all add: e)
  from a have c: "w_encode_calls (snd ?res) = []" "w_inserts (snd ?res) = []" by simp_all
  from x a b c show ?thesis unfolding Let_def by blast
qed

text \<open>
  The claim as stated fails on the code: with the checkpoint present and the collection
  missing, the run ends at the gate, and by then the collection has been created and
  \<^verbatim>\<open>create_index\<close> has been called.
\<close>

theorem gate_skip_counterexample:
  "(let sv = \<lparr>connect_ok = True, create_index_ok = True, model_ok = True, encode_fails = [],
               insert_fails = [], tmp_write_ok = True, replace_ok = True\<rparr>;
        lib = \<lparr>str_repr = (\<lambda>v. []), json_loads = (\<lambda>s. None),
               json_dumps = (\<lambda>v. []), json_dumps_indent = (\<lambda>v. [])\<rparr>;
        clk = \<lparr>clk_date = ''d'', clk_hms = ''h'', clk_utc = ''u''\<rparr>;
        cfg = \<lparr>cfg_collection_name = None, cfg_dim = None, cfg_model_name = None,
               cfg_batch_size = None, cfg_checkpoints_root = None\<rparr>;
        p = [''w'', ''data'', ''datasets'', ''a'', ''b'', ''x_v1.jsonl''];
        w = \<lparr>w_fs = [(p, ''{}''), ([''w'', ''data'', ''checkpoints'', ''x_v1.done''], ''{}'')],
             w_collections = [], w_index_calls = [], w_encode_calls = [], w_inserts = []\<rparr>;
        res = ingest_main sv lib clk (Some cfg) [''w''] p w
    in fs_exists (w_fs w) (done_path_of (checkpoints_root_of [''w''] cfg) p)
       \<and> fst res = Skipped_done
       \<and> w_collections w = [] \<and> w_collections (snd res) = [''attacks_v2'']
       \<and> w_index_calls w = [] \<and> w_index_calls (snd res) = [(''attacks_v2'', True)])"
proof -
  let ?p = "[''w'', ''data'', ''datasets'', ''a'', ''b'', ''x_v1.jsonl'']"
  let ?cfg = "\<lparr>cfg_collection_name = None, cfg_dim = None, cfg_model_name = None,
               cfg_batch_size = None, cfg_checkpoints_root = None\<rparr>"
  let ?w = "\<lparr>w_fs = [(?p, ''{}''), ([''w'', ''data'', ''checkpoints'', ''x_v1.done''], ''{}'')],
             w_collections = [], w_index_calls = [], w_encode_calls = [], w_inserts = []\<rparr>"
  have e: "ingest_main
        \<lparr>connect_ok = True, create_index_ok = True, model_ok = True, encode_fails = [],
               insert_fails = [], tmp_write_ok = True, replace_ok = True\<rparr>
        \<lparr>str_repr = (\<lambda>v. []), json_loads = (\<lambda>s. None),
               json_dumps = (\<lambda>v. []), json_dumps_indent = (\<lambda>v. [])\<rparr>
        \<lparr>clk_date = ''d'', clk_hms = ''h'', clk_utc = ''u''\<rparr> (Some ?cfg) [''w''] ?p ?w
      = (Skipped_done, ?w\<lparr>w_collections := [''attacks_v2''], w_index_calls := [(''attacks_v2'', True)]\<rparr>)"
    by (simp add: ingest_eval Let_def)
  have x: "fs_exists (w_fs ?w) (done_path_of (checkpoints_root_of [''w''] ?cfg) ?p)"
    by (simp add: ingest_eval)
  from x show ?thesis unfolding Let_def e by simp
qed

lemma completed_has_done:
  assumes "ingest_main sv lib clk (Some cfg) cwd p w = (Completed, w')"
  shows "fs_exists (w_fs w') (done_path_of (checkpoints_root_of cwd cfg) p)"
proof -
  define root where "root = checkpoints_root_of cwd cfg"
  obtain coll w1 where e: "ensure_collection sv cfg w = (coll, w1)" by force
  then have f1: "w_fs w1 = w_fs w" using ensure_collection_frame(1)[of sv cfg w] by simp
  from assms have ex: "fs_exists (w_fs w) p" and c: "connect_ok sv"
    by (auto simp: ingest_main_def split: if_splits)
  from assms ex c e f1 have nd: "\<not> fs_exists (w_fs w) (done_path_of root p)"
    and nl: "\<not> fs_exists (w_fs w) (lock_path_of root p)"
    by (auto simp: ingest_main_def Let_def root_def split: if_splits)
  obtain res w2 where lp: "locked_phase sv lib clk cfg (collection_name cfg) root p
               (snd (ensure_collection sv cfg w)) = (res, w2)" by force
  from ingest_main_gate_open[OF ex c nd[unfolded root_def] nl[unfolded root_def] lp[unfolded root_def]] assms
  have r: "res = None" and w': "w' = w2\<lparr>w_fs := fs_remove (w_fs w2) (lock_path_of root p)\<rparr>"
    by (auto simp: root_def split: option.splits)
  from locked_phase_markers(3)[OF lp r] obtain n where
    "fs_read (w_fs w2) (done_path_of root p) = Some (json_dumps_indent lib (checkpoint_payload clk cfg p (collection_name cfg) n))"
    by blast
  then show ?thesis
    unfolding w' root_def[symmetric] using marker_paths_distinct(1)[of root p]
    by (simp add: exists_read read_remove)
qed

lemma stem_markers:
  "py_stem (path_name p1) = py_stem (path_name p2) \<Longrightarrow>
   done_path_of root p1 = done_path_of root p2 \<and> lock_path_of root p1 = lock_path_of root p2"
  by (simp add: done_path_of_def lock_path_of_def)

lemma watcher_skips_marker:
  "fs_exists fs (done_path_of (CHECKPOINTS cwd) p) \<or> fs_exists fs (lock_path_of (CHECKPOINTS cwd) p)
   \<Longrightarrow> watcher_skips cwd fs p"
  by (auto simp: watcher_skips_def done_path_of_def lock_path_of_def)

text \<open>
  C3, as amended. Two dataset files with the same stem have the same \<^verbatim>\<open>.done\<close> and the
  same \<^verbatim>\<open>.lock\<close> path under any checkpoints root. After a run of the Ingestor on the
  first has completed, the checkpoint of the second exists under the Ingestor's
  checkpoints root. While a marker of the first exists there, a run of the Ingestor on
  the second with the same root does not do the work (nothing is embedded or inserted),
  and ends at a gate when the file exists and the connection is made. The Watcher's sweep
  passes the second file over when a marker of the first exists under the Watcher's own
  \<^verbatim>\<open>data/checkpoints\<close>, which is the Ingestor's root when the configuration names no
  other and the working directory is the same.
\<close>

theorem shared_markers_by_stem:
  assumes "py_stem (path_name p1) = py_stem (path_name p2)"
  shows "done_path_of root p1 = done_path_of root p2 \<and> lock_path_of root p1 = lock_path_of root p2
    \<and> (ingest_main sv lib clk (Some cfg) cwd p1 w = (Completed, w') \<longrightarrow>
          fs_exists (w_fs w') (done_path_of (checkpoints_root_of cwd cfg) p2))
    \<and> (fs_exists (w_fs v) (done_path_of (checkpoints_root_of cwd cfg) p1)
          \<or> fs_exists (w_fs v) (lock_path_of (checkpoints_root_of cwd cfg) p1) \<longrightarrow>
        (\<exists>oc v'. ingest_main sv2 lib2 clk2 (Some cfg) cwd p2 v = (oc, v')
           \<and> oc \<noteq> Completed \<and> w_fs v' = w_fs v
           \<and> w_encode_calls v' = w_encode_calls v \<and> w_inserts v' = w_inserts v
           \<and> (fs_exists (w_fs v) p2 \<and> connect_ok sv2 \<longrightarrow> oc = Skipped_done \<or> oc = Skipped_lock)))
    \<and> (fs_exists (w_fs v) (done_path_of (CHECKPOINTS wcwd) p1)
          \<or> fs_exists (w_fs v) (lock_path_of (CHECKPOINTS wcwd) p1) \<longrightarrow>
        watcher_skips wcwd (w_fs v) p2
        \<and> ingest_pending_loop sv3 lib3 clk3 cfgo wcwd (p2 # rest) v
            = ingest_pending_loop sv3 lib3 clk3 cfgo wcwd rest v)
    \<and> (cfg_checkpoints_root cfg = None \<longrightarrow> checkpoints_root_of wcwd cfg = CHECKPOINTS wcwd)"
proof -
  note m = stem_markers[OF assms]
  have a: "ingest_main sv lib clk (Some cfg) cwd p1 w = (Completed, w') \<Longrightarrow>
          fs_exists (w_fs w') (done_path_of (checkpoints_root_of cwd cfg) p2)"
    using completed_has_done[of sv lib clk cfg cwd p1 w w'] m[of "checkpoints_root_of cwd cfg"] by simp
  have b: "fs_exists (w_fs v) (done_path_of (checkpoints_root_of cwd cfg) p1)
          \<or> fs_exists (w_fs v) (lock_path_of (checkpoints_root_of cwd cfg) p1) \<Longrightarrow>
        (\<exists>oc v'. ingest_main sv2 lib2 clk2 (Some cfg) cwd p2 v = (oc, v')
           \<and> oc \<noteq> Completed \<and> w_fs v' = w_fs v
           \<and> w_encode_calls v' = w_encode_calls v \<and> w_inserts v' = w_inserts v
           \<and> (fs_exists (w_fs v) p2 \<and> connect_ok sv2 \<longrightarrow> oc = Skipped_done \<or> oc = Skipped_lock))"
  proof -
    assume "fs_exists (w_fs v) (done_path_of (checkpoints_root_of cwd cfg) p1)
          \<or> fs_exists (w_fs v) (lock_path_of (checkpoints_root_of cwd cfg) p1)"
    then have "fs_exists (w_fs v) (done_path_of (checkpoints_root_of cwd cfg) p2)
          \<or> fs_exists (w_fs v) (lock_path_of (checkpoints_root_of cwd cfg) p2)"
      using m[of "checkpoints_root_of cwd cfg"] by simp
    from gate_closed[OF this, of sv2 lib2 clk2] show ?thesis by blast
  qed
  have c: "fs_exists (w_fs v) (done_path_of (CHECKPOINTS wcwd) p1)
          \<or> fs_exists (w_fs v) (lock_path_of (CHECKPOINTS wcwd) p1) \<Longrightarrow>
        watcher_skips wcwd (w_fs v) p2
        \<and> ingest_pending_loop sv3 lib3 clk3 cfgo wcwd (p2 # rest) v
            = ingest_pending_loop sv3 lib3 clk3 cfgo wcwd rest v"
  proof -
    assume "fs_exists (w_fs v) (done_path_of (CHECKPOINTS wcwd) p1)
          \<or> fs_exists (w_fs v) (lock_path_of (CHECKPOINTS wcwd) p1)"
    then have "fs_exists (w_fs v) (done_path_of (CHECKPOINTS wcwd) p2)
          \<or> fs_exists (w_fs v) (lock_path_of (CHECKPOINTS wcwd) p2)"
      using m[of "CHECKPOINTS wcwd"] by simp
    then have "watcher_skips wcwd (w_fs v) p2" by (rule watcher_skips_marker)
    then show ?thesis by simp
  qed
  have d: "cfg_checkpoints_root cfg = None \<Longrightarrow> checkpoints_root_of wcwd cfg = CHECKPOINTS wcwd"
    by (simp add: checkpoints_root_of_def CHECKPOINTS_def)
  from m a b c d show ?thesis by blast
qed

text \<open>
  Two files \<^verbatim>\<open>x_v1.jsonl\<close> in two folders, the default checkpoints root: once the first
  is ingested, the Ingestor and the Watcher pass the second over.
\<close>

theorem shared_markers_by_stem_witness:
  "(let sv = \<lparr>connect_ok = True, create_index_ok = True, model_ok = True, encode_fails = [],
               insert_fails = [], tmp_write_ok = True, replace_ok = True\<rparr>;
        lib = \<lparr>str_repr = (\<lambda>v. []), json_loads = (\<lambda>s. if s = ''{}'' then Some (JObj []) else None),
               json_dumps = (\<lambda>v. ''{}''), json_dumps_indent = (\<lambda>v. ''{}'')\<rparr>;
        clk = \<lparr>clk_date = ''d'', clk_hms = ''h'', clk_utc = ''u''\<rparr>;
        cfg = \<lparr>cfg_collection_name = None, cfg_dim = None, cfg_model_name = None,
               cfg_batch_size = None, cfg_checkpoints_root = None\<rparr>;
        p1 = [''w'', ''data'', ''datasets'', ''a'', ''b'', ''x_v1.jsonl''];
        p2 = [''w'', ''data'', ''datasets'', ''c'', ''d'', ''x_v1.jsonl''];
        w = \<lparr>w_fs = [(p1, ''{}''), (p2, ''{}'')], w_collections = [], w_index_calls = [],
             w_encode_calls = [], w_inserts = []\<rparr>;
        r1 = ingest_main sv lib clk (Some cfg) [''w''] p1 w
    in py_stem (path_name p1) = py_stem (path_name p2)
       \<and> fst r1 = Completed
       \<and> fs_exists (w_fs (snd r1)) (done_path_of (checkpoints_root_of [''w''] cfg) p2)
       \<and> fst (ingest_main sv lib clk (Some cfg) [''w''] p2 (snd r1)) = Skipped_done
       \<and> watcher_skips [''w''] (w_fs (snd r1)) p2)"
proof -
  let ?sv = "\<lparr>connect_ok = True, create_index_ok = True, model_ok = True, encode_fails = [],
               insert_fails = [], tmp_write_ok = True, replace_ok = True\<rparr>"
  let ?lib = "\<lparr>str_repr = (\<lambda>v. []), json_loads = (\<lambda>s. if s = ''{}'' then Some (JObj []) else None),
               json_dumps = (\<lambda>v. ''{}''), json_dumps_indent = (\<lambda>v. ''{}'')\<rparr>"
  let ?clk = "\<lparr>clk_date = ''d'', clk_hms = ''h'', clk_utc = ''u''\<rparr>"
  let ?cfg = "\<lparr>cfg_collection_name = None, cfg_dim = None, cfg_model_name = None,
               cfg_batch_size = None, cfg_checkpoints_root = None\<rparr>"
  let ?p1 = "[''w'', ''data'', ''datasets'', ''a'', ''b'', ''x_v1.jsonl'']"
  let ?p2 = "[''w'', ''data'', ''datasets'', ''c'', ''d'', ''x_v1.jsonl'']"
  let ?w = "\<lparr>w_fs = [(?p1, ''{}''), (?p2, ''{}'')], w_collections = [], w_index_calls = [],
             w_encode_calls = [], w_inserts = []\<rparr>"
  let ?row = "\<lparr>row_id = JStr [], row_embedding = Embedding ''sentence-transformers/all-MiniLM-L6-v2'' [],
             row_title = JStr [], row_category = JStr [], row_sub_category = JStr [], row_risk = JStr [],
             row_tags = [], row_os = [], row_system = [], row_raw = JObj []\<rparr>"
  let ?w1 = "\<lparr>w_fs = [([''w'', ''data'', ''checkpoints'', ''x_v1.done''], ''{}''), (?p1, ''{}''), (?p2, ''{}'')],
              w_collections = [''attacks_v2''], w_index_calls = [(''attacks_v2'', True)],
              w_encode_calls = [[[]]], w_inserts = [(''attacks_v2'', [?row])]\<rparr>"
  have s: "py_stem (path_name ?p1) = py_stem (path_name ?p2)" by (simp add: path_name_def)
  have e: "ingest_main ?sv ?lib ?clk (Some ?cfg) [''w''] ?p1 ?w = (Completed, ?w1)"
    by (simp add: ingest_eval text_eval Let_def)
  note t = shared_markers_by_stem[OF s, of "checkpoints_root_of [''w''] ?cfg" ?sv ?lib ?clk ?cfg "[''w'']" ?w ?w1
      ?w1 ?sv ?lib ?clk "[''w'']" ?sv ?lib ?clk "Some ?cfg" "[]"]
  from t e have d: "fs_exists (w_fs ?w1) (done_path_of (checkpoints_root_of [''w''] ?cfg) ?p2)" by blast
  have x: "fs_exists (w_fs ?w1) ?p2" "connect_ok ?sv" by (simp_all add: fs_exists_def)
  have d1: "fs_exists (w_fs ?w1) (done_path_of (checkpoints_root_of [''w''] ?cfg) ?p1)" using d s
    by (simp add: done_path_of_def)
  from t d1 x obtain oc v' where
    o: "ingest_main ?sv ?lib ?clk (Some ?cfg) [''w''] ?p2 ?w1 = (oc, v')" "oc = Skipped_done \<or> oc = Skipped_lock"
    by blast
  have g: "fst (ingest_main ?sv ?lib ?clk (Some ?cfg) [''w''] ?p2 ?w1) = Skipped_done"
    by (simp add: ingest_eval Let_def)
  have c0: "checkpoints_root_of [''w''] ?cfg = CHECKPOINTS [''w'']"
    by (simp add: checkpoints_root_of_def CHECKPOINTS_def)
  from t d1 c0 have k: "watcher_skips [''w''] (w_fs ?w1) ?p2" by simp
  from s d g k show ?thesis unfolding Let_def e by simp
qed

text \<open>
  The claim as stated fails on the code: the configuration sets
  \<^verbatim>\<open>paths.checkpoints_root\<close> to another folder. The first file is ingested and its
  checkpoint is written there; the Watcher looks under its own \<^verbatim>\<open>data/checkpoints\<close>,
  finds no marker and does not pass the second file over (the Ingestor it starts ends at
  the gate).
\<close>

theorem shared_markers_counterexample:
  "(let sv = \<lparr>connect_ok = True, create_index_ok = True, model_ok = True, encode_fails = [],
               insert_fails = [], tmp_write_ok = True, replace_ok = True\<rparr>;
        lib = \<lparr>str_repr = (\<lambda>v. []), json_loads = (\<lambda>s. if s = ''{}'' then Some (JObj []) else None),
               json_dumps = (\<lambda>v. ''{}''), json_dumps_indent = (\<lambda>v. ''{}'')\<rparr>;
        clk = \<lparr>clk_date = ''d'', clk_hms = ''h'', clk_utc = ''u''\<rparr>;
        cfg = \<lparr>cfg_collection_name = None, cfg_dim = None, cfg_model_name = None,
               cfg_batch_size = None, cfg_checkpoints_root = Some [''ckpt'']\<rparr>;
        p1 = [''w'', ''data'', ''datasets'', ''a'', ''b'', ''x_v1.jsonl''];
        p2 = [''w'', ''data'', ''datasets'', ''c'', ''d'', ''x_v1.jsonl''];
        w = \<lparr>w_fs = [(p1, ''{}''), (p2, ''{}'')], w_collections = [], w_index_calls = [],
             w_encode_calls = [], w_inserts = []\<rparr>;
        r1 = ingest_main sv lib clk (Some cfg) [''w''] p1 w
    in py_stem (path_name p1) = py_stem (path_name p2)
       \<and> fst r1 = Completed
       \<and> fs_exists (w_fs (snd r1)) [''ckpt'', ''x_v1.done'']
       \<and> \<not> watcher_skips [''w''] (w_fs (snd r1)) p2
       \<and> fst (ingest_main sv lib clk (Some cfg) [''w''] p2 (snd r1)) = Skipped_done)"
proof -
  let ?sv = "\<lparr>connect_ok = True, create_index_ok = True, model_ok = True, encode_fails = [],
               insert_fails = [], tmp_write_ok = True, replace_ok = True\<rparr>"
  let ?lib = "\<lparr>str_repr = (\<lambda>v. []), json_loads = (\<lambda>s. if s = ''{}'' then Some (JObj []) else None),
               json_dumps = (\<lambda>v. ''{}''), json_dumps_indent = (\<lambda>v. ''{}'')\<rparr>"
  let ?clk = "\<lparr>clk_date = ''d'', clk_hms = ''h'', clk_utc = ''u''\<rparr>"
  let ?cfg = "\<lparr>cfg_collection_name = None, cfg_dim = None, cfg_model_name = None,
               cfg_batch_size = None, cfg_checkpoints_root = Some [''ckpt'']\<rparr>"
  let ?p1 = "[''w'', ''data'', ''datasets'', ''a'', ''b'', ''x_v1.jsonl'']"
  let ?p2 = "[''w'', ''data'', ''datasets'', ''c'', ''d'', ''x_v1.jsonl'']"
  let ?w = "\<lparr>w_fs = [(?p1, ''{}''), (?p2, ''{}'')], w_collections = [], w_index_calls = [],
             w_encode_calls = [], w_inserts = []\<rparr>"
  let ?row = "\<lparr>row_id = JStr [], row_embedding = Embedding ''sentence-transformers/all-MiniLM-L6-v2'' [],
             row_title = JStr [], row_category = JStr [], row_sub_category = JStr [], row_risk = JStr [],
             row_tags = [], row_os = [], row_system = [], row_raw = JObj []\<rparr>"
  let ?w1 = "\<lparr>w_fs = [([''ckpt'', ''x_v1.done''], ''{}''), (?p1, ''{}''), (?p2, ''{}'')],
              w_collections = [''attacks_v2''], w_index_calls = [(''attacks_v2'', True)],
              w_encode_calls = [[[]]], w_inserts = [(''attacks_v2'', [?row])]\<rparr>"
  have s: "py_stem (path_name ?p1) = py_stem (path_name ?p2)" by (simp add: path_name_def)
  have e: "ingest_main ?sv ?lib ?clk (Some ?cfg) [''w''] ?p1 ?w = (Completed, ?w1)"
    by (simp add: ingest_eval text_eval Let_def)
  have d: "fs_exists (w_fs ?w1) [''ckpt'', ''x_v1.done'']" by (simp add: fs_exists_def)
  have k: "\<not> watcher_skips [''w''] (w_fs ?w1) ?p2"
    by (simp add: watcher_skips_def EXCLUDE_NAMES_def CHECKPOINTS_def ingest_eval)
  have g: "fst (ingest_main ?sv ?lib ?clk (Some ?cfg) [''w''] ?p2 ?w1) = Skipped_done"
    by (simp add: ingest_eval Let_def)
  from s d g k show ?thesis unfolding Let_def e by simp
qed

subsection \<open>Batches\<close>

lemma chunks_Nil: "chunks b [] = []"
  by (simp add: chunks.simps)

lemma chunks_small: "xs \<noteq> [] \<Longrightarrow> length xs \<le> b \<Longrightarrow> chunks b xs = [xs]"
  by (subst chunks.simps) (cases xs, auto simp: chunks_Nil)

lemma chunks_full: "length xs = b \<Longrightarrow> 0 < b \<Longrightarrow> chunks b (xs @ ys) = xs # chunks b ys"
  by (subst chunks.simps) auto

lemma chunks_length: "0 < b \<Longrightarrow> length (chunks b xs) = (length xs + b - 1) div b"
proof (induction b xs rule: chunks.induct)
  case (1 b xs)
  show ?case
  proof (cases "xs = []")
    case True
    with 1 show ?thesis by (simp add: chunks_Nil)
  next
    case False
    show ?thesis
    proof (cases "length xs \<le> b")
      case True
      from False have "0 < length xs" by simp
      with True 1(2) have "b * 1 \<le> length xs + b - 1" "length xs + b - 1 < b * Suc 1" by arith+
      then have "(length xs + b - 1) div b = 1" by (rule div_nat_eqI)
      with True False show ?thesis by (simp add: chunks_small)
    next
      case big: False
      with 1 False have ih: "length (chunks b (drop b xs)) = (length xs - b + b - 1) div b" by simp
      have "length (chunks b xs) = Suc (length (chunks b (drop b xs)))"
        using False 1 by (subst chunks.simps) simp
      also have "\<dots> = Suc ((length xs - 1) div b)" using ih big by simp
      also have "\<dots> = (length xs - 1 + b) div b" using 1(2) by (simp add: div_add_self2)
      also have "\<dots> = (length xs + b - 1) div b" using big by simp
      finally show ?thesis .
    qed
  qed
qed

lemma chunks_sizes:
  "0 < b \<Longrightarrow> map length (chunks b xs)
     = replicate (length xs div b) b @ (if length xs mod b = 0 then [] else [length xs mod b])"
proof (induction b xs rule: chunks.induct)
  case (1 b xs)
  show ?case
  proof (cases "xs = []")
    case True
    then show ?thesis by (simp add: chunks_Nil)
  next
    case False
    show ?thesis
    proof (cases "length xs < b")
      case True
      with False show ?thesis by (simp add: chunks_small)
    next
      case big: False
      then have le: "b \<le> length xs" by simp
      from 1 False have ih: "map length (chunks b (drop b xs))
          = replicate ((length xs - b) div b) b @ (if (length xs - b) mod b = 0 then [] else [(length xs - b) mod b])"
        by simp
      have d: "length xs div b = Suc ((length xs - b) div b)" using le 1(2)
        by (simp add: le_div_geq)
      have m: "length xs mod b = (length xs - b) mod b" using le by (simp add: le_mod_geq)
      have "map length (chunks b xs) = b # map length (chunks b (drop b xs))"
        using False 1(2) le by (subst chunks.simps) simp
      with ih d m show ?thesis by simp
    qed
  qed
qed

lemma chunks_map: "map (map f) (chunks b xs) = chunks b (map f xs)"
proof (induction b xs rule: chunks.induct)
  case (1 b xs)
  show ?case
  proof (cases "b = 0 \<or> xs = []")
    case True
    then show ?thesis by (subst (1 2) chunks.simps) auto
  next
    case False
    with 1 have "map (map f) (chunks b (drop b xs)) = chunks b (map f (drop b xs))" by simp
    with False show ?thesis
      by (subst (1 2) chunks.simps) (simp add: take_map drop_map)
  qed
qed

subsection \<open>A run in which nothing fails\<close>

lemma build_rows_ok:
  "\<forall>r \<in> set rs. \<not> isl (extract_scalar_fields lib r) \<Longrightarrow>
   build_rows lib (zip rs (map (Embedding m) (map (ingest_build_embedding_text (str_repr lib)) rs)))
     = Inr (map (row_of lib m) rs)"
proof (induction rs)
  case Nil
  show ?case by simp
next
  case (Cons r rs)
  then obtain s where s: "extract_scalar_fields lib r = Inr s"
    by (cases "extract_scalar_fields lib r") auto
  from Cons have "build_rows lib (zip rs (map (Embedding m) (map (ingest_build_embedding_text (str_repr lib)) rs)))
     = Inr (map (row_of lib m) rs)" by simp
  with s show ?case by (simp add: row_of_def)
qed

lemma flush_batch_ok:
  assumes "encode_fails sv = []" "insert_fails sv = []" "rs \<noteq> []"
    and "\<forall>r \<in> set rs. \<not> isl (extract_scalar_fields lib r)"
  shows "flush_batch sv lib m coll (map (ingest_build_embedding_text (str_repr lib)) rs) rs w
     = (None, w\<lparr>w_encode_calls := w_encode_calls w @ [map (ingest_build_embedding_text (str_repr lib)) rs],
                  w_inserts := w_inserts w @ [(coll, map (row_of lib m) rs)]\<rparr>)"
  using assms(1,2,3) build_rows_ok[OF assms(4), of m]
  by (simp add: flush_batch_def Let_def)

lemma flush_batch_empty: "flush_batch sv lib m coll [] [] w = (None, w)"
  by (simp add: flush_batch_def)

lemma ingest_loop_ok:
  assumes ef: "encode_fails sv = []" and inf: "insert_fails sv = []" and b: "1 \<le> b"
  shows "\<forall>r \<in> set (records @ recs). \<not> isl (extract_scalar_fields lib r) \<Longrightarrow>
         length records < nat b \<Longrightarrow>
         \<exists>rs w2 w3.
           ingest_loop sv lib m coll b recs (map (ingest_build_embedding_text (str_repr lib)) records) records tot w
             = (Inr (map (ingest_build_embedding_text (str_repr lib)) rs, rs, tot + length recs), w2)
         \<and> flush_batch sv lib m coll (map (ingest_build_embedding_text (str_repr lib)) rs) rs w2 = (None, w3)
         \<and> w_encode_calls w3 = w_encode_calls w
              @ chunks (nat b) (map (ingest_build_embedding_text (str_repr lib)) (records @ recs))
         \<and> w_inserts w3 = w_inserts w @ map (\<lambda>c. (coll, map (row_of lib m) c)) (chunks (nat b) (records @ recs))
         \<and> w_fs w3 = w_fs w \<and> w_collections w3 = w_collections w \<and> w_index_calls w3 = w_index_calls w"
proof (induction recs arbitrary: records tot w)
  case Nil
  let ?bet = "ingest_build_embedding_text (str_repr lib)"
  show ?case
  proof (cases "records = []")
    case True
    then show ?thesis by (simp add: flush_batch_empty chunks_Nil)
  next
    case False
    from Nil.prems(1) have p: "\<forall>r \<in> set records. \<not> isl (extract_scalar_fields lib r)" by simp
    have c: "chunks (nat b) records = [records]"
      using False Nil.prems(2) by (simp add: chunks_small)
    have c': "chunks (nat b) (map ?bet records) = [map ?bet records]"
      using False Nil.prems(2) by (simp add: chunks_small)
    show ?thesis
      using flush_batch_ok[OF ef inf False p, of m coll w] c c' by simp
  qed
next
  case (Cons rec recs)
  let ?bet = "ingest_build_embedding_text (str_repr lib)"
  let ?records = "records @ [rec]"
  have tx: "map ?bet records @ [?bet rec] = map ?bet ?records" by simp
  from Cons.prems(1) have p: "\<forall>r \<in> set ?records. \<not> isl (extract_scalar_fields lib r)"
    and pr: "\<forall>r \<in> set recs. \<not> isl (extract_scalar_fields lib r)" by simp_all
  show ?case
  proof (cases "int (length ?records) \<ge> b")
    case False
    then have l: "length ?records < nat b" by simp
    have pa: "\<forall>r \<in> set (?records @ recs). \<not> isl (extract_scalar_fields lib r)"
      using Cons.prems(1) by simp
    from Cons.IH[OF pa l, of "tot + 1" w] False show ?thesis
      by (simp add: Let_def)
  next
    case True
    with Cons.prems(2) have full: "length ?records = nat b" by simp
    have ne: "?records \<noteq> []" by simp
    let ?w1 = "w\<lparr>w_encode_calls := w_encode_calls w @ [map ?bet ?records],
                  w_inserts := w_inserts w @ [(coll, map (row_of lib m) ?records)]\<rparr>"
    have fl: "flush_batch sv lib m coll (map ?bet ?records) ?records w = (None, ?w1)"
      by (rule flush_batch_ok[OF ef inf ne p])
    have pe: "\<forall>r \<in> set ([] @ recs). \<not> isl (extract_scalar_fields lib r)" using pr by simp
    have l0: "length ([] :: json list) < nat b" using b by simp
    from Cons.IH[OF pe l0, of "tot + 1" ?w1] obtain rs w2 w3 where
      ih: "ingest_loop sv lib m coll b recs [] [] (tot + 1) ?w1
             = (Inr (map ?bet rs, rs, tot + 1 + length recs), w2)"
        "flush_batch sv lib m coll (map ?bet rs) rs w2 = (None, w3)"
        "w_encode_calls w3 = w_encode_calls ?w1 @ chunks (nat b) (map ?bet recs)"
        "w_inserts w3 = w_inserts ?w1 @ map (\<lambda>c. (coll, map (row_of lib m) c)) (chunks (nat b) recs)"
        "w_fs w3 = w_fs ?w1" "w_collections w3 = w_collections ?w1" "w_index_calls w3 = w_index_calls ?w1"
      by auto
    have lp: "ingest_loop sv lib m coll b (rec # recs) (map ?bet records) records tot w
             = (Inr (map ?bet rs, rs, tot + length (rec # recs)), w2)"
      using True fl ih(1) by (simp add: Let_def tx del: map_append)
    have bpos: "0 < nat b" using b by simp
    have c1: "chunks (nat b) (map ?bet (records @ rec # recs)) = map ?bet ?records # chunks (nat b) (map ?bet recs)"
      using chunks_full[of "map ?bet ?records" "nat b" "map ?bet recs"] full bpos by simp
    have c2: "chunks (nat b) (records @ rec # recs) = ?records # chunks (nat b) recs"
      using chunks_full[of ?records "nat b" recs] full bpos by simp
    from lp ih(2-7) c1 c2 show ?thesis by simp
  qed
qed

lemma row_raw_row_of: "row_raw (row_of lib m r) = r"
  by (simp add: row_of_def make_row_def)

lemma locked_phase_ok:
  assumes mo: "model_ok sv" and ef: "encode_fails sv = []" and inf: "insert_fails sv = []"
    and tw: "tmp_write_ok sv" and ro: "replace_ok sv"
    and b: "1 \<le> batch_size_of cfg"
    and rd: "fs_read (w_fs w) p = Some t"
    and ne: "p \<noteq> lock_path_of root p"
    and pr: "\<forall>r \<in> set (records_of_lines lib (py_lines t)). \<not> isl (extract_scalar_fields lib r)"
  shows "\<exists>w'. locked_phase sv lib clk cfg coll root p w = (None, w')
     \<and> w_encode_calls w' = w_encode_calls w
          @ chunks (nat (batch_size_of cfg))
              (map (ingest_build_embedding_text (str_repr lib)) (records_of_lines lib (py_lines t)))
     \<and> w_inserts w' = w_inserts w
          @ map (\<lambda>c. (coll, map (row_of lib (model_name_of cfg)) c))
              (chunks (nat (batch_size_of cfg)) (records_of_lines lib (py_lines t)))"
proof -
  define recs where "recs = records_of_lines lib (py_lines t)"
  define w1 where "w1 = w\<lparr>w_fs := fs_write (w_fs w) (lock_path_of root p) ''lock''\<rparr>"
  have sr: "stream_records lib p (w_fs w1) = Inr recs"
    using rd ne by (simp add: stream_records_def w1_def read_write recs_def)
  have pa: "\<forall>r \<in> set ([] @ recs). \<not> isl (extract_scalar_fields lib r)" using pr by (simp add: recs_def)
  have l0: "length ([] :: json list) < nat (batch_size_of cfg)" using b by simp
  from ingest_loop_ok[OF ef inf b pa l0, of "model_name_of cfg" coll 0 w1] obtain rs w2 w3 where
    lp: "ingest_loop sv lib (model_name_of cfg) coll (batch_size_of cfg) recs [] [] 0 w1
           = (Inr (map (ingest_build_embedding_text (str_repr lib)) rs, rs, length recs), w2)"
    and fl: "flush_batch sv lib (model_name_of cfg) coll (map (ingest_build_embedding_text (str_repr lib)) rs) rs w2
           = (None, w3)"
    and ec: "w_encode_calls w3 = w_encode_calls w1
              @ chunks (nat (batch_size_of cfg)) (map (ingest_build_embedding_text (str_repr lib)) recs)"
    and ic: "w_inserts w3 = w_inserts w1
              @ map (\<lambda>c. (coll, map (row_of lib (model_name_of cfg)) c)) (chunks (nat (batch_size_of cfg)) recs)"
    by auto
  obtain d fs3 where wc: "write_checkpoint_atomic sv lib root (py_stem (path_name p))
        (checkpoint_payload clk cfg p coll (length recs)) (w_fs w3) = (Inr d, fs3)"
    using tw ro by (simp add: write_checkpoint_atomic_def Let_def)
  have "locked_phase sv lib clk cfg coll root p w = (None, w3\<lparr>w_fs := fs3\<rparr>)"
    using mo sr lp fl wc by (simp add: locked_phase_def Let_def w1_def[symmetric])
  moreover have "w_encode_calls w1 = w_encode_calls w" "w_inserts w1 = w_inserts w"
    by (simp_all add: w1_def)
  ultimately show ?thesis using ec ic unfolding recs_def by simp
qed

text \<open>
  C9. A run that is not stopped at a gate and in which no service fails, on a dataset
  file whose records all have extractable scalar fields (objects whose \<^verbatim>\<open>important\<close> and
  \<^verbatim>\<open>targets\<close>, when present, are objects), with batch size \<open>b \<ge> 1\<close> and \<open>n\<close> records:
  the run completes; the embedding calls it makes are the texts of the records cut into
  pieces of \<open>b\<close>, that is \<open>\<lceil>n / b\<rceil>\<close> calls, \<open>n div b\<close> of size \<open>b\<close> and then one of size
  \<open>n mod b\<close> when that is not zero; the inserted batches are as many, of the same sizes,
  and hold the same records in the same order.
\<close>

theorem batches_of_configured_size:
  fixes lib :: pylib and t :: string and cfg :: config and recs n b
  defines "recs \<equiv> records_of_lines lib (py_lines t)"
    and "n \<equiv> length (records_of_lines lib (py_lines t))"
    and "b \<equiv> nat (batch_size_of cfg)"
  assumes "fs_read (w_fs w) p = Some t"
    and "connect_ok sv" and "model_ok sv" and "encode_fails sv = []" and "insert_fails sv = []"
    and "tmp_write_ok sv" and "replace_ok sv"
    and "\<not> fs_exists (w_fs w) (done_path_of (checkpoints_root_of cwd cfg) p)"
    and "\<not> fs_exists (w_fs w) (lock_path_of (checkpoints_root_of cwd cfg) p)"
    and "1 \<le> batch_size_of cfg"
    and "\<forall>r \<in> set (records_of_lines lib (py_lines t)). \<not> isl (extract_scalar_fields lib r)"
  shows "\<exists>w' calls batches.
      ingest_main sv lib clk (Some cfg) cwd p w = (Completed, w')
    \<and> w_encode_calls w' = w_encode_calls w @ calls
    \<and> w_inserts w' = w_inserts w @ batches
    \<and> calls = chunks b (map (ingest_build_embedding_text (str_repr lib)) recs)
    \<and> map (\<lambda>x. map row_raw (snd x)) batches = chunks b recs
    \<and> length calls = (n + b - 1) div b
    \<and> length batches = length calls
    \<and> map length calls = replicate (n div b) b @ (if n mod b = 0 then [] else [n mod b])
    \<and> map (\<lambda>x. length (snd x)) batches = map length calls"
proof -
  let ?bet = "ingest_build_embedding_text (str_repr lib)"
  define root where "root = checkpoints_root_of cwd cfg"
  define coll where "coll = collection_name cfg"
  define w0 where "w0 = snd (ensure_collection sv cfg w)"
  have bpos: "0 < b" using assms(13) by (simp add: b_def)
  from assms(4) have ex: "fs_exists (w_fs w) p" by (simp add: exists_read)
  have ne: "p \<noteq> lock_path_of root p"
    using ex assms(12) unfolding root_def by auto
  have rd0: "fs_read (w_fs w0) p = Some t"
    using assms(4) by (simp add: w0_def ensure_collection_frame)
  from locked_phase_ok[OF assms(6,7,8,9,10,13) rd0 ne assms(14), of clk coll] obtain w2 where
    lp: "locked_phase sv lib clk cfg coll root p w0 = (None, w2)"
    and ec: "w_encode_calls w2 = w_encode_calls w0 @ chunks b (map ?bet recs)"
    and ic: "w_inserts w2 = w_inserts w0 @ map (\<lambda>c. (coll, map (row_of lib (model_name_of cfg)) c)) (chunks b recs)"
    unfolding recs_def b_def by blast
  define calls where "calls = chunks b (map ?bet recs)"
  define batches where "batches = map (\<lambda>c. (coll, map (row_of lib (model_name_of cfg)) c)) (chunks b recs)"
  define w' where "w' = w2\<lparr>w_fs := fs_remove (w_fs w2) (lock_path_of root p)\<rparr>"
  have m: "ingest_main sv lib clk (Some cfg) cwd p w = (Completed, w')"
    using ingest_main_gate_open[OF ex assms(5) assms(11,12) lp[unfolded coll_def root_def w0_def]]
    by (simp add: w'_def root_def)
  have e1: "w_encode_calls w' = w_encode_calls w @ calls"
    using ec by (simp add: w'_def w0_def ensure_collection_frame calls_def)
  have e2: "w_inserts w' = w_inserts w @ batches"
    using ic by (simp add: w'_def w0_def ensure_collection_frame batches_def)
  have r: "map (\<lambda>x. map row_raw (snd x)) batches = chunks b recs"
    by (simp add: batches_def comp_def row_raw_row_of)
  have cm: "calls = map (map ?bet) (chunks b recs)" by (simp add: calls_def chunks_map)
  have lc: "length calls = (n + b - 1) div b"
    using chunks_length[OF bpos, of "map ?bet recs"] by (simp add: calls_def n_def recs_def)
  have lb: "length batches = length calls" by (simp add: batches_def cm)
  have sc: "map length calls = replicate (n div b) b @ (if n mod b = 0 then [] else [n mod b])"
    using chunks_sizes[OF bpos, of "map ?bet recs"] by (simp add: calls_def n_def recs_def)
  have sb: "map (\<lambda>x. length (snd x)) batches = map length calls"
    by (simp add: batches_def cm comp_def)
  from m e1 e2 r lc lb sc sb show ?thesis unfolding calls_def[symmetric] by blast
qed

text \<open>Batch size 2 and 5 records: three calls of sizes 2, 2, 1, and three batches.\<close>

theorem batches_of_configured_size_witness:
  "(let sv = \<lparr>connect_ok = True, create_index_ok = True, model_ok = True, encode_fails = [],
               insert_fails = [], tmp_write_ok = True, replace_ok = True\<rparr>;
        lib = \<lparr>str_repr = (\<lambda>v. []), json_loads = (\<lambda>s. if s = ''{}'' then Some (JObj []) else None),
               json_dumps = (\<lambda>v. ''{}''), json_dumps_indent = (\<lambda>v. ''{}'')\<rparr>;
        clk = \<lparr>clk_date = ''d'', clk_hms = ''h'', clk_utc = ''u''\<rparr>;
        cfg = \<lparr>cfg_collection_name = None, cfg_dim = None, cfg_model_name = None,
               cfg_batch_size = Some 2, cfg_checkpoints_root = None\<rparr>;
        p = [''w'', ''data'', ''datasets'', ''a'', ''b'', ''x_v1.jsonl''];
        t = ''{}\<newline>{}\<newline>{}\<newline>{}\<newline>{}'';
        w = \<lparr>w_fs = [(p, t)], w_collections = [], w_index_calls = [],
             w_encode_calls = [], w_inserts = []\<rparr>;
        res = ingest_main sv lib clk (Some cfg) [''w''] p w
    in 1 \<le> batch_size_of cfg
       \<and> length (records_of_lines lib (py_lines t)) = 5
       \<and> list_all (\<lambda>r. \<not> isl (extract_scalar_fields lib r)) (records_of_lines lib (py_lines t))
       \<and> fst res = Completed
       \<and> map length (w_encode_calls (snd res)) = [2, 2, 1]
       \<and> map (\<lambda>x. length (snd x)) (w_inserts (snd res)) = [2, 2, 1])"
proof -
  let ?sv = "\<lparr>connect_ok = True, create_index_ok = True, model_ok = True, encode_fails = [],
               insert_fails = [], tmp_write_ok = True, replace_ok = True\<rparr>"
  let ?lib = "\<lparr>str_repr = (\<lambda>v. []), json_loads = (\<lambda>s. if s = ''{}'' then Some (JObj []) else None),
               json_dumps = (\<lambda>v. ''{}''), json_dumps_indent = (\<lambda>v. ''{}'')\<rparr>"
  let ?clk = "\<lparr>clk_date = ''d'', clk_hms = ''h'', clk_utc = ''u''\<rparr>"
  let ?cfg = "\<lparr>cfg_collection_name = None, cfg_dim = None, cfg_model_name = None,
               cfg_batch_size = Some 2, cfg_checkpoints_root = None\<rparr>"
  let ?p = "[''w'', ''data'', ''datasets'', ''a'', ''b'', ''x_v1.jsonl'']"
  let ?t = "''{}\<newline>{}\<newline>{}\<newline>{}\<newline>{}''"
  let ?w = "\<lparr>w_fs = [(?p, ?t)], w_collections = [], w_index_calls = [],
             w_encode_calls = [], w_inserts = []\<rparr>"
  let ?res = "ingest_main ?sv ?lib ?clk (Some ?cfg) [''w''] ?p ?w"
  have recs: "records_of_lines ?lib (py_lines ?t) = [JObj [], JObj [], JObj [], JObj [], JObj []]"
    by (simp add: records_of_lines_def py_lines_def py_strip_def is_space_def)
  have h1: "fs_read (w_fs ?w) ?p = Some ?t" by (simp add: fs_read_def)
  have h8: "\<not> fs_exists (w_fs ?w) (done_path_of (checkpoints_root_of [''w''] ?cfg) ?p)"
    by (simp add: ingest_eval)
  have h9: "\<not> fs_exists (w_fs ?w) (lock_path_of (checkpoints_root_of [''w''] ?cfg) ?p)"
    by (simp add: ingest_eval)
  have h10: "1 \<le> batch_size_of ?cfg" by (simp add: batch_size_of_def)
  have h11: "\<forall>r \<in> set (records_of_lines ?lib (py_lines ?t)). \<not> isl (extract_scalar_fields ?lib r)"
    unfolding recs by (simp add: extract_scalar_fields_def dict_get_def)
  have b: "nat (batch_size_of ?cfg) = 2" by (simp add: batch_size_of_def)
  from batches_of_configured_size[of ?w ?p ?t ?sv "[''w'']" ?cfg ?lib ?clk, OF h1 _ _ _ _ _ _ h8 h9 h10 h11]
  obtain w' calls batches where
    m: "?res = (Completed, w')"
    and c: "w_encode_calls w' = w_encode_calls ?w @ calls" "w_inserts w' = w_inserts ?w @ batches"
    and s: "map length calls = replicate (length (records_of_lines ?lib (py_lines ?t)) div nat (batch_size_of ?cfg))
                (nat (batch_size_of ?cfg))
              @ (if length (records_of_lines ?lib (py_lines ?t)) mod nat (batch_size_of ?cfg) = 0 then []
                 else [length (records_of_lines ?lib (py_lines ?t)) mod nat (batch_size_of ?cfg)])"
    and sb: "map (\<lambda>x. length (snd x)) batches = map length calls"
    by auto
  have five: "length (records_of_lines ?lib (py_lines ?t)) = 5" unfolding recs by simp
  have "replicate (5 div 2) (2::nat) @ (if 5 mod 2 = (0::nat) then [] else [5 mod 2]) = [2, 2, 1]"
    by code_simp
  then have s': "map length calls = [2, 2, 1]"
    unfolding s five b .
  have a1: "fst ?res = Completed" using m by simp
  have a2: "map length (w_encode_calls (snd ?res)) = [2, 2, 1]" using m c(1) s' by simp
  have a3: "map (\<lambda>x. length (snd x)) (w_inserts (snd ?res)) = [2, 2, 1]" using m c(2) sb s' by simp
  have l: "list_all (\<lambda>r. \<not> isl (extract_scalar_fields ?lib r)) (records_of_lines ?lib (py_lines ?t))"
    using h11 by (simp add: list_all_iff)
  from h10 five l a1 a2 a3 show ?thesis unfolding Let_def by blast
qed

subsection \<open>Lines that are passed over\<close>

lemma records_of_lines_append:
  "records_of_lines lib (xs @ ys) = records_of_lines lib xs @ records_of_lines lib ys"
  by (simp add: records_of_lines_def)










end
